theory Spec2Isabelle
  imports
    Main
    "HOL-Library.Word"
    "HOL-Library.Sublist"
    "HOL-Library.Char_ord"
    "HOL-Library.List_Lexorder"
    "HOL-Library.RBT"
begin

section \<open>Strings, positions and the exceptions of \<^verbatim>\<open>std::string\<close>\<close>

text \<open>
  A \<^verbatim>\<open>std::string\<close> is a \<^typ>\<open>string\<close> (a list of bytes); \<^verbatim>\<open>size_t\<close> is a 64-bit word, so
  that \<^verbatim>\<open>delimiter_pos + 1\<close> wraps as it does in the program. \<^verbatim>\<open>std::string::npos\<close> is
  the largest \<^verbatim>\<open>size_t\<close>. Of the exceptions that the program's library calls can throw, the
  model has the \<^verbatim>\<open>std::out_of_range\<close> of \<^verbatim>\<open>substr\<close>; running out of memory is left out.
\<close>

type_synonym size_t = "64 word"

definition npos :: size_t where
  "npos = - 1"

datatype error = Out_of_range

text \<open>The character written by \<^verbatim>\<open>std::endl\<close> and consumed by \<^verbatim>\<open>std::getline\<close>.\<close>

definition newline :: char where
  "newline = CHR 0x0A"

text \<open>
  \<^verbatim>\<open>s.find(pat)\<close>: the lowest position at which \<^verbatim>\<open>pat\<close> occurs in \<^verbatim>\<open>s\<close>, or \<^verbatim>\<open>npos\<close>.
  \<open>find_index\<close> is the search itself; \<open>string_find\<close> is its result as a \<^verbatim>\<open>size_t\<close>.
\<close>

fun find_index :: "string \<Rightarrow> string \<Rightarrow> nat option" where
  "find_index pat [] = (if pat = [] then Some 0 else None)"
| "find_index pat (c # cs) =
     (if prefix pat (c # cs) then Some 0 else map_option Suc (find_index pat cs))"

definition string_find :: "string \<Rightarrow> string \<Rightarrow> size_t" where
  "string_find s pat = (case find_index pat s of None \<Rightarrow> npos | Some i \<Rightarrow> of_nat i)"

text \<open>
  \<^verbatim>\<open>s.substr(pos, n)\<close> throws \<^verbatim>\<open>std::out_of_range\<close> when \<^verbatim>\<open>pos > s.size()\<close>, and otherwise
  returns the \<^verbatim>\<open>min(n, size - pos)\<close> characters from \<^verbatim>\<open>pos\<close> on. \<^verbatim>\<open>s.substr(pos)\<close> is
  \<^verbatim>\<open>s.substr(pos, npos)\<close>.
\<close>

definition substr :: "string \<Rightarrow> size_t \<Rightarrow> size_t \<Rightarrow> error + string" where
  "substr s pos n =
     (if unat pos > length s then Inl Out_of_range
      else Inr (take (unat n) (drop (unat pos) s)))"

text \<open>
  \<^verbatim>\<open>std::getline(stream, line)\<close> on the unread rest of a stream: it fails when nothing is
  left; otherwise it extracts up to the next newline (or the end), discards the newline,
  and leaves the rest. \<open>getlines\<close> is the sequence of lines that the loop
  \<^verbatim>\<open>while (std::getline(stream, line))\<close> sees.
\<close>

definition getline :: "string \<Rightarrow> (string \<times> string) option" where
  "getline stream =
     (if stream = [] then None
      else Some (takeWhile (\<lambda>c. c \<noteq> newline) stream,
                 drop 1 (dropWhile (\<lambda>c. c \<noteq> newline) stream)))"

lemma getline_shorter: "getline stream = Some (line, rest) \<Longrightarrow> length rest < length stream"
proof -
  assume a: "getline stream = Some (line, rest)"
  then have ne: "stream \<noteq> []" and r: "rest = drop 1 (dropWhile (\<lambda>c. c \<noteq> newline) stream)"
    by (auto simp: getline_def split: if_splits)
  have "length (dropWhile (\<lambda>c. c \<noteq> newline) stream) \<le> length stream"
    by (rule length_dropWhile_le)
  with ne r show ?thesis by (cases "dropWhile (\<lambda>c. c \<noteq> newline) stream") auto
qed

function getlines :: "string \<Rightarrow> string list" where
  "getlines stream =
     (case getline stream of None \<Rightarrow> [] | Some (line, rest) \<Rightarrow> line # getlines rest)"
  by pat_completeness auto
termination
  by (relation "measure length") (auto dest: getline_shorter)

declare getlines.simps [simp del]

section \<open>The program state\<close>

text \<open>
  \<^verbatim>\<open>std::set<std::string>\<close> and \<^verbatim>\<open>std::map<std::string, ...>\<close> are red-black trees ordered by
  \<^verbatim>\<open>std::string\<close>'s \<^verbatim>\<open>operator<\<close> (bytewise lexicographic), iterated in key order.
\<close>

type_synonym string_set = "(string, unit) rbt"

type_synonym topology = "(string, string_set) rbt"

text \<open>
  The three globals of namespace \<^verbatim>\<open>MorrisII\<close>, and the file system the streams act on:
  \<open>files\<close> maps the name of each existing file to its contents (a name is a file: there
  are no links, and names are compared byte for byte), \<open>unwritable\<close> holds the names that
  an \<^verbatim>\<open>std::ofstream\<close> fails to open, and \<open>trace\<close> lists, oldest first, every text that
  reached a file, with the name under which the file was opened.
\<close>

record state =
  contacts :: "string list"
  connected_systems :: topology
  infected_systems :: string_set
  files :: "string \<rightharpoonup> string"
  unwritable :: "string set"
  trace :: "(string \<times> string) list"

text \<open>The state at program start: the globals are empty, nothing has been written.\<close>

definition initial :: "(string \<rightharpoonup> string) \<Rightarrow> string set \<Rightarrow> state" where
  "initial fs ro =
     \<lparr>contacts = [], connected_systems = RBT.empty, infected_systems = RBT.empty,
      files = fs, unwritable = ro, trace = []\<rparr>"

subsection \<open>Streams\<close>

text \<open>
  An \<^verbatim>\<open>std::ifstream\<close> opens when the file exists; on a stream that failed to open every
  \<^verbatim>\<open>getline\<close> fails, so the loop sees no line.
\<close>

definition ifstream_good :: "state \<Rightarrow> string \<Rightarrow> bool" where
  "ifstream_good s name = (files s name \<noteq> None)"

definition ifstream_lines :: "state \<Rightarrow> string \<Rightarrow> string list" where
  "ifstream_lines s name = (case files s name of None \<Rightarrow> [] | Some c \<Rightarrow> getlines c)"

text \<open>
  \<^verbatim>\<open>std::ofstream\<close> opens the file named by \<^verbatim>\<open>name.c_str()\<close>, the bytes of the name before
  its first NUL byte (for the string literals of the program, the literal itself). The open
  fails on the empty name and on the names in \<open>unwritable\<close>.
\<close>

definition c_str :: "string \<Rightarrow> string" where
  "c_str name = takeWhile (\<lambda>c. c \<noteq> CHR 0x00) name"

definition can_open :: "string set \<Rightarrow> string \<Rightarrow> bool" where
  "can_open ro name \<longleftrightarrow> c_str name \<noteq> [] \<and> c_str name \<notin> ro"

text \<open>
  An \<^verbatim>\<open>std::ofstream\<close> opened in the default mode creates or truncates the file; opened
  with \<^verbatim>\<open>std::ios::app\<close> it creates the file or keeps its contents. Both return whether
  the stream is good. Output through a stream that is not good is dropped; output through
  a good stream goes to the file that was opened.
\<close>

definition ofstream_open :: "string \<Rightarrow> state \<Rightarrow> bool \<times> state" where
  "ofstream_open name s =
     (if \<not> can_open (unwritable s) name then (False, s)
      else (True, s\<lparr>files := (files s)(c_str name \<mapsto> [])\<rparr>))"

definition ofstream_open_app :: "string \<Rightarrow> state \<Rightarrow> bool \<times> state" where
  "ofstream_open_app name s =
     (if \<not> can_open (unwritable s) name then (False, s)
      else (True, s\<lparr>files := (files s)(c_str name \<mapsto>
                     (case files s (c_str name) of None \<Rightarrow> [] | Some c \<Rightarrow> c))\<rparr>))"

definition stream_put :: "bool \<Rightarrow> string \<Rightarrow> string \<Rightarrow> state \<Rightarrow> state" where
  "stream_put good name text s =
     (if good
      then s\<lparr>files := (files s)(c_str name \<mapsto>
                  (case files s (c_str name) of None \<Rightarrow> [] | Some c \<Rightarrow> c) @ text),
             trace := trace s @ [(c_str name, text)]\<rparr>
      else s)"

section \<open>The functions of namespace \<^verbatim>\<open>MorrisII\<close>\<close>

text \<open>
  Each function takes the state and returns the new one. The source lists
  \<^verbatim>\<open>ProcessAdversarialPrompt\<close> and \<^verbatim>\<open>SendPrompt\<close> before the functions they call; here every
  function comes after those it calls. Each loop is a recursive function named after the
  function that contains it.
\<close>

definition IsAdversarialPrompt :: "string \<Rightarrow> bool" where
  "IsAdversarialPrompt email = (string_find email ''adversarial_keyword'' \<noteq> npos)"

subsection \<open>\<^verbatim>\<open>IdentifyConnectedSystems\<close>\<close>

text \<open>
  \<^verbatim>\<open>connected_systems[host].insert(connected_system)\<close>: \<^verbatim>\<open>operator[]\<close> default-constructs
  an empty set for a new key; the set then takes the element.
\<close>

definition insert_connected :: "string \<Rightarrow> string \<Rightarrow> topology \<Rightarrow> topology" where
  "insert_connected host connected_system cs =
     RBT.insert host
       (RBT.insert connected_system ()
          (case RBT.lookup cs host of None \<Rightarrow> RBT.empty | Some systems \<Rightarrow> systems))
       cs"

text \<open>The body of the \<^verbatim>\<open>while\<close> loop, for one line.\<close>

definition IdentifyConnectedSystems_line :: "string \<Rightarrow> topology \<Rightarrow> error + topology" where
  "IdentifyConnectedSystems_line line cs =
     (let delimiter_pos = string_find line '' '' in
      case substr line 0 delimiter_pos of
        Inl e \<Rightarrow> Inl e
      | Inr host \<Rightarrow>
          (case substr line (delimiter_pos + 1) npos of
             Inl e \<Rightarrow> Inl e
           | Inr connected_system \<Rightarrow> Inr (insert_connected host connected_system cs)))"

fun IdentifyConnectedSystems_loop :: "string list \<Rightarrow> topology \<Rightarrow> error + topology" where
  "IdentifyConnectedSystems_loop [] cs = Inr cs"
| "IdentifyConnectedSystems_loop (line # rest) cs =
     (case IdentifyConnectedSystems_line line cs of
        Inl e \<Rightarrow> Inl e
      | Inr cs' \<Rightarrow> IdentifyConnectedSystems_loop rest cs')"

definition IdentifyConnectedSystems :: "state \<Rightarrow> error + state" where
  "IdentifyConnectedSystems s =
     (case IdentifyConnectedSystems_loop (ifstream_lines s ''connected_systems.txt'')
             (connected_systems s) of
        Inl e \<Rightarrow> Inl e
      | Inr cs \<Rightarrow> Inr (s\<lparr>connected_systems := cs\<rparr>))"

subsection \<open>The payload: \<^verbatim>\<open>StealData\<close>, \<^verbatim>\<open>SendSpamEmails\<close>, \<^verbatim>\<open>ReplicatePrompt\<close>\<close>

text \<open>
  \<^verbatim>\<open>StealData\<close> opens both streams first and tests them afterwards; the loop copies each
  line of \<^verbatim>\<open>data.txt\<close>, followed by \<^verbatim>\<open>std::endl\<close>.
\<close>

fun StealData_loop :: "string list \<Rightarrow> state \<Rightarrow> state" where
  "StealData_loop [] s = s"
| "StealData_loop (data # rest) s =
     StealData_loop rest (stream_put True ''stolen_data.txt'' (data @ [newline]) s)"

definition StealData :: "state \<Rightarrow> state" where
  "StealData s =
     (let data_stream = ifstream_good s ''data.txt'';
          data_lines = ifstream_lines s ''data.txt'';
          (stolen_data_stream, s1) = ofstream_open ''stolen_data.txt'' s
      in if data_stream \<and> stolen_data_stream then StealData_loop data_lines s1 else s1)"

fun SendSpamEmails_loop :: "string list \<Rightarrow> state \<Rightarrow> state" where
  "SendSpamEmails_loop [] s = s"
| "SendSpamEmails_loop (contact # rest) s =
     (let (spam_email_stream, s1) = ofstream_open (contact @ ''_spam_email.txt'') s
      in SendSpamEmails_loop rest
           (if spam_email_stream
            then stream_put spam_email_stream (contact @ ''_spam_email.txt'')
                   ''This is a spam email.'' s1
            else s1))"

definition SendSpamEmails :: "state \<Rightarrow> state" where
  "SendSpamEmails s = SendSpamEmails_loop (contacts s) s"

fun ReplicatePrompt_loop :: "string \<Rightarrow> string list \<Rightarrow> state \<Rightarrow> state" where
  "ReplicatePrompt_loop replicated_email [] s = s"
| "ReplicatePrompt_loop replicated_email (contact # rest) s =
     (let (replicated_email_stream, s1) = ofstream_open (contact @ ''_replicated_email.txt'') s
      in ReplicatePrompt_loop replicated_email rest
           (if replicated_email_stream
            then stream_put replicated_email_stream (contact @ ''_replicated_email.txt'')
                   replicated_email s1
            else s1))"

definition ReplicatePrompt :: "string \<Rightarrow> state \<Rightarrow> state" where
  "ReplicatePrompt email s =
     (let replicated_email = email @ '' replicated_prompt''
      in ReplicatePrompt_loop replicated_email (contacts s) s)"

definition ProcessAdversarialPrompt :: "string \<Rightarrow> state \<Rightarrow> state" where
  "ProcessAdversarialPrompt email s = ReplicatePrompt email (SendSpamEmails (StealData s))"

subsection \<open>The ledgers: \<^verbatim>\<open>LogTransmission\<close>, \<^verbatim>\<open>LogInfection\<close>, \<^verbatim>\<open>SendPrompt\<close>\<close>

text \<open>Neither function tests its stream before writing to it.\<close>

definition LogTransmission :: "string \<Rightarrow> string \<Rightarrow> state \<Rightarrow> state" where
  "LogTransmission host system s =
     (let (log_stream, s1) = ofstream_open_app ''transmission_log.txt'' s
      in stream_put log_stream ''transmission_log.txt'' (host @ '' -> '' @ system @ [newline]) s1)"

definition LogInfection :: "string \<Rightarrow> string \<Rightarrow> state \<Rightarrow> state" where
  "LogInfection host system s =
     (let (infection_log_stream, s1) = ofstream_open_app ''infection_log.txt'' s
      in stream_put infection_log_stream ''infection_log.txt''
           (host @ '' infected '' @ system @ [newline]) s1)"

definition SendPrompt :: "string \<Rightarrow> string \<Rightarrow> state \<Rightarrow> state" where
  "SendPrompt host system s = LogInfection host system (LogTransmission host system s)"

subsection \<open>\<^verbatim>\<open>Initialize\<close>, \<^verbatim>\<open>Run\<close> and \<^verbatim>\<open>main\<close>\<close>

fun Initialize_loop :: "string list \<Rightarrow> state \<Rightarrow> state" where
  "Initialize_loop [] s = s"
| "Initialize_loop (contact # rest) s =
     Initialize_loop rest (s\<lparr>contacts := contacts s @ [contact]\<rparr>)"

definition Initialize :: "state \<Rightarrow> error + state" where
  "Initialize s =
     IdentifyConnectedSystems (Initialize_loop (ifstream_lines s ''contacts.txt'') s)"

text \<open>The first loop of \<^verbatim>\<open>Run\<close>, over the contacts.\<close>

fun Run_scan :: "string list \<Rightarrow> state \<Rightarrow> state" where
  "Run_scan [] s = s"
| "Run_scan (email # rest) s =
     Run_scan rest (if IsAdversarialPrompt email then ProcessAdversarialPrompt email s else s)"

text \<open>
  The second loop of \<^verbatim>\<open>Run\<close>: the entries of the map in key order, and for each the
  elements of its set in order.
\<close>

fun Run_systems :: "string \<Rightarrow> string list \<Rightarrow> state \<Rightarrow> state" where
  "Run_systems host [] s = s"
| "Run_systems host (system # rest) s = Run_systems host rest (SendPrompt host system s)"

fun Run_hosts :: "(string \<times> string_set) list \<Rightarrow> state \<Rightarrow> state" where
  "Run_hosts [] s = s"
| "Run_hosts ((host, systems) # rest) s =
     Run_hosts rest (Run_systems host (RBT.keys systems) s)"

definition Run_propagate :: "state \<Rightarrow> state" where
  "Run_propagate s = Run_hosts (RBT.entries (connected_systems s)) s"

definition Run :: "state \<Rightarrow> error + state" where
  "Run s =
     (case Initialize s of
        Inl e \<Rightarrow> Inl e
      | Inr s1 \<Rightarrow> Inr (Run_propagate (Run_scan (contacts s1) s1)))"

text \<open>
  \<^verbatim>\<open>main\<close> starts from the initial state and returns 0 when \<^verbatim>\<open>Run\<close> returns; an exception
  leaving \<^verbatim>\<open>Run\<close> would end the process without an exit status of \<^verbatim>\<open>main\<close>'s.
\<close>

definition main :: "(string \<rightharpoonup> string) \<Rightarrow> string set \<Rightarrow> error + int \<times> state" where
  "main fs ro = (case Run (initial fs ro) of Inl e \<Rightarrow> Inl e | Inr s \<Rightarrow> Inr (0, s))"

section \<open>Observations\<close>

text \<open>
  What the properties below speak about: the set stored under a host (empty when the host
  is no key of the map), membership in \<^verbatim>\<open>infected_systems\<close>, and the pairs
  \<open>(host, system)\<close> in the order in which the second loop of \<^verbatim>\<open>Run\<close> visits them.
\<close>

definition neighbors_of :: "topology \<Rightarrow> string \<Rightarrow> string set" where
  "neighbors_of cs host =
     (case RBT.lookup cs host of None \<Rightarrow> {} | Some systems \<Rightarrow> set (RBT.keys systems))"

definition is_infected :: "state \<Rightarrow> string \<Rightarrow> bool" where
  "is_infected s system = (RBT.lookup (infected_systems s) system \<noteq> None)"

definition edges :: "topology \<Rightarrow> (string \<times> string) list" where
  "edges cs = concat (map (\<lambda>(host, systems). map (Pair host) (RBT.keys systems)) (RBT.entries cs))"

text \<open>The lines written to the two ledgers for one edge.\<close>

definition transmission_line :: "string \<times> string \<Rightarrow> string" where
  "transmission_line e = fst e @ '' -> '' @ snd e @ [newline]"

definition infection_line :: "string \<times> string \<Rightarrow> string" where
  "infection_line e = fst e @ '' infected '' @ snd e @ [newline]"

text \<open>
  The two fields that the loop body of \<^verbatim>\<open>IdentifyConnectedSystems\<close> takes from a line
  (lemma \<open>IdentifyConnectedSystems_line_short\<close> below): the text before the first space,
  and the text after it, or the whole line when there is no space.
\<close>

definition line_host :: "string \<Rightarrow> string" where
  "line_host line = takeWhile (\<lambda>c. c \<noteq> CHR '' '') line"

definition line_system :: "string \<Rightarrow> string" where
  "line_system line =
     (if CHR '' '' \<in> set line then drop 1 (dropWhile (\<lambda>c. c \<noteq> CHR '' '') line) else line)"

text \<open>The two writes of \<^verbatim>\<open>SendPrompt\<close> for one edge when both ledgers open.\<close>

definition edge_writes :: "string \<times> string \<Rightarrow> (string \<times> string) list" where
  "edge_writes e =
     [(''transmission_log.txt'', transmission_line e), (''infection_log.txt'', infection_line e)]"

text \<open>The part of the state that is not the file system.\<close>

definition globals :: "state \<Rightarrow> string list \<times> topology \<times> string_set \<times> string set" where
  "globals s = (contacts s, connected_systems s, infected_systems s, unwritable s)"

text \<open>
  Opening a sink in the default mode and, when it opened, writing one text to it (the body
  of the loops of \<^verbatim>\<open>SendSpamEmails\<close> and \<^verbatim>\<open>ReplicatePrompt\<close>, lemmas
  \<open>SendSpamEmails_loop_Cons\<close> and \<open>ReplicatePrompt_loop_Cons\<close>).
\<close>

definition put_file :: "string \<Rightarrow> string \<Rightarrow> state \<Rightarrow> state" where
  "put_file name text s =
     (if \<not> can_open (unwritable s) name then s
      else s\<lparr>files := (files s)(c_str name \<mapsto> text), trace := trace s @ [(c_str name, text)]\<rparr>)"

text \<open>
  The writes of one run of the payload, in order: the lines that \<^verbatim>\<open>StealData\<close> copies,
  then for every contact whose sink opens the text of \<^verbatim>\<open>SendSpamEmails\<close>, then for every
  contact whose sink opens the text of \<^verbatim>\<open>ReplicatePrompt\<close>.
\<close>

definition steal_writes :: "string list \<Rightarrow> (string \<times> string) list" where
  "steal_writes data_lines = map (\<lambda>data. (''stolen_data.txt'', data @ [newline])) data_lines"

definition spam_writes :: "string set \<Rightarrow> string list \<Rightarrow> (string \<times> string) list" where
  "spam_writes ro cs =
     map (\<lambda>contact. (c_str (contact @ ''_spam_email.txt''), ''This is a spam email.''))
       (filter (\<lambda>contact. can_open ro (contact @ ''_spam_email.txt'')) cs)"

definition replicated_writes :: "string set \<Rightarrow> string list \<Rightarrow> string \<Rightarrow> (string \<times> string) list" where
  "replicated_writes ro cs email =
     map (\<lambda>contact. (c_str (contact @ ''_replicated_email.txt''), email @ '' replicated_prompt''))
       (filter (\<lambda>contact. can_open ro (contact @ ''_replicated_email.txt'')) cs)"

definition payload_writes ::
  "string set \<Rightarrow> string list \<Rightarrow> string \<times> string list \<Rightarrow> (string \<times> string) list" where
  "payload_writes ro cs p =
     steal_writes (snd p) @ spam_writes ro cs @ replicated_writes ro cs (fst p)"

section \<open>Auxiliary facts\<close>

subsection \<open>Searching and cutting strings\<close>

lemma find_index_None_iff: "find_index pat s = None \<longleftrightarrow> \<not> sublist pat s"
  by (induction s) (auto simp: sublist_Cons_right)

lemma find_index_Some_bound: "find_index pat s = Some i \<Longrightarrow> i + length pat \<le> length s"
proof (induction s arbitrary: i)
  case Nil
  then show ?case by (auto split: if_splits)
next
  case (Cons c cs)
  then show ?case by (auto split: if_splits dest: prefix_length_le)
qed

lemma unat_npos: "unat npos = 2 ^ 64 - 1"
  by (simp add: npos_def unsigned_minus_1_eq_mask mask_eq_exp_minus_1)

lemma of_nat_neq_npos: "i < 2 ^ 64 - 1 \<Longrightarrow> (of_nat i :: size_t) \<noteq> npos"
proof
  assume b: "i < 2 ^ 64 - 1" and e: "(of_nat i :: size_t) = npos"
  from b have "unat (of_nat i :: size_t) = i" by (simp add: unat_of_nat)
  with e unat_npos b show False by simp
qed

lemma IsAdversarialPrompt_iff:
  assumes "length email < 2 ^ 64"
  shows "IsAdversarialPrompt email \<longleftrightarrow> sublist ''adversarial_keyword'' email"
proof (cases "find_index ''adversarial_keyword'' email")
  case None
  then show ?thesis
    using find_index_None_iff [of "''adversarial_keyword''" email]
    by (simp add: IsAdversarialPrompt_def string_find_def)
next
  case (Some i)
  from find_index_Some_bound [OF Some] assms have "i < 2 ^ 64 - 1" by simp
  then have "(of_nat i :: size_t) \<noteq> npos" by (rule of_nat_neq_npos)
  moreover from Some have "sublist ''adversarial_keyword'' email"
    using find_index_None_iff [of "''adversarial_keyword''" email] by simp
  ultimately show ?thesis by (simp add: IsAdversarialPrompt_def string_find_def Some)
qed

lemma find_index_space:
  "find_index '' '' line =
     (if CHR '' '' \<in> set line then Some (length (takeWhile (\<lambda>c. c \<noteq> CHR '' '') line)) else None)"
  by (induction line) auto

lemma substr_whole: "length s < 2 ^ 64 \<Longrightarrow> substr s 0 npos = Inr s"
  by (simp add: substr_def unat_npos)

lemma npos_plus_1: "npos + 1 = 0"
  by (simp add: npos_def)

lemma line_no_space:
  assumes "CHR '' '' \<notin> set line"
  shows "IdentifyConnectedSystems_line line cs =
           Inr (insert_connected (take (2 ^ 64 - 1) line) (take (2 ^ 64 - 1) line) cs)"
proof -
  from assms have "string_find line '' '' = npos"
    by (simp add: string_find_def find_index_space)
  then show ?thesis
    by (simp add: IdentifyConnectedSystems_line_def substr_def npos_plus_1 unat_npos)
qed

lemma line_space:
  assumes sp: "CHR '' '' \<in> set line"
  defines "k \<equiv> length (takeWhile (\<lambda>c. c \<noteq> CHR '' '') line)"
  shows "IdentifyConnectedSystems_line line cs =
           Inr (insert_connected (take (unat (of_nat k :: size_t)) line)
                  (take (2 ^ 64 - 1) (drop (unat (of_nat k + 1 :: size_t)) line)) cs)"
    and "unat (of_nat k + 1 :: size_t) \<le> length line"
proof -
  from sp have f: "string_find line '' '' = of_nat k"
    by (simp add: string_find_def find_index_space k_def)
  from sp have "takeWhile (\<lambda>c. c \<noteq> CHR '' '') line \<noteq> line"
    by (simp add: takeWhile_eq_all_conv)
  moreover have "takeWhile (\<lambda>c. c \<noteq> CHR '' '') line = take k line"
    unfolding k_def by (rule takeWhile_eq_take)
  ultimately have klt: "k < length line"
    by (metis take_all not_le)
  have "(of_nat k + 1 :: size_t) = of_nat (Suc k)" by simp
  then have "unat (of_nat k + 1 :: size_t) = Suc k mod 2 ^ LENGTH(64)"
    by (simp only: unat_of_nat)
  moreover have "Suc k mod 2 ^ LENGTH(64) \<le> Suc k" by (rule mod_less_eq_dividend)
  ultimately have "unat (of_nat k + 1 :: size_t) \<le> k + 1" by simp
  with klt show le: "unat (of_nat k + 1 :: size_t) \<le> length line" by simp
  then show "IdentifyConnectedSystems_line line cs =
           Inr (insert_connected (take (unat (of_nat k :: size_t)) line)
                  (take (2 ^ 64 - 1) (drop (unat (of_nat k + 1 :: size_t)) line)) cs)"
    by (simp add: IdentifyConnectedSystems_line_def f substr_def unat_npos Let_def)
qed

lemma take_below_takeWhile:
  assumes "m \<le> length (takeWhile P xs)"
  shows "\<forall>x\<in>set (take m xs). P x"
proof -
  have "takeWhile P xs = take (length (takeWhile P xs)) xs" by (rule takeWhile_eq_take)
  then have "take m (takeWhile P xs) = take m (take (length (takeWhile P xs)) xs)" by simp
  also from assms have "\<dots> = take m xs" by (simp add: min_def)
  finally have "set (take m xs) \<subseteq> set (takeWhile P xs)"
    by (metis set_take_subset)
  then show ?thesis by (auto dest: set_takeWhileD)
qed

lemma IdentifyConnectedSystems_line_any:
  "\<exists>host system. IdentifyConnectedSystems_line line cs = Inr (insert_connected host system cs)
     \<and> CHR '' '' \<notin> set host"
proof (cases "CHR '' '' \<in> set line")
  case False
  then have "CHR '' '' \<notin> set (take (2 ^ 64 - 1) line)" by (auto dest: in_set_takeD)
  with line_no_space [OF False] show ?thesis by blast
next
  case True
  let ?k = "length (takeWhile (\<lambda>c. c \<noteq> CHR '' '') line)"
  have "unat (of_nat ?k :: size_t) = ?k mod 2 ^ LENGTH(64)" by (simp only: unat_of_nat)
  moreover have "?k mod 2 ^ LENGTH(64) \<le> ?k" by (rule mod_less_eq_dividend)
  ultimately have "unat (of_nat ?k :: size_t) \<le> ?k" by simp
  then have "\<forall>x\<in>set (take (unat (of_nat ?k :: size_t)) line). x \<noteq> CHR '' ''"
    by (rule take_below_takeWhile)
  then have "CHR '' '' \<notin> set (take (unat (of_nat ?k :: size_t)) line)" by blast
  with line_space(1) [OF True] show ?thesis by blast
qed

lemma IdentifyConnectedSystems_line_short:
  assumes len: "length line < 2 ^ 64"
  shows "IdentifyConnectedSystems_line line cs =
           Inr (insert_connected (line_host line) (line_system line) cs)"
proof (cases "CHR '' '' \<in> set line")
  case False
  from len have "take (2 ^ 64 - 1) line = line" by simp
  moreover from False have "line_host line = line"
    by (auto simp: line_host_def takeWhile_eq_all_conv)
  moreover from False have "line_system line = line" by (simp add: line_system_def)
  ultimately show ?thesis using line_no_space [OF False, of cs] by simp
next
  case True
  let ?P = "\<lambda>c. c \<noteq> CHR '' ''"
  let ?k = "length (takeWhile ?P line)"
  have kle: "?k \<le> length line" by (rule length_takeWhile_le)
  with len have "?k < 2 ^ LENGTH(64)" by simp
  then have uk: "unat (of_nat ?k :: size_t) = ?k" by (simp only: unat_of_nat mod_less)
  have "(of_nat ?k + 1 :: size_t) = of_nat (Suc ?k)" by simp
  then have u1: "unat (of_nat ?k + 1 :: size_t) = Suc ?k mod 2 ^ LENGTH(64)"
    by (simp only: unat_of_nat)
  have "takeWhile ?P line \<noteq> line" using True by (simp add: takeWhile_eq_all_conv)
  moreover have "takeWhile ?P line = take ?k line" by (rule takeWhile_eq_take)
  ultimately have "?k < length line" by (metis take_all not_le)
  with len have "Suc ?k < 2 ^ LENGTH(64)" by simp
  with u1 have uk1: "unat (of_nat ?k + 1 :: size_t) = Suc ?k" by (simp only: mod_less)
  have h: "take ?k line = line_host line"
    unfolding line_host_def by (rule takeWhile_eq_take [symmetric])
  have "dropWhile ?P line = drop ?k line" by (rule dropWhile_eq_drop)
  then have "line_system line = drop (Suc ?k) line"
    using True by (simp add: line_system_def)
  moreover from len have "take (2 ^ 64 - 1) (drop (Suc ?k) line) = drop (Suc ?k) line" by simp
  ultimately show ?thesis
    using line_space(1) [OF True, of cs] by (simp only: uk uk1 h)
qed

lemma lookup_insert_connected:
  "RBT.lookup (insert_connected host system cs) h =
     (if h = host
      then Some (RBT.insert system ()
             (case RBT.lookup cs host of None \<Rightarrow> RBT.empty | Some systems \<Rightarrow> systems))
      else RBT.lookup cs h)"
  by (simp add: insert_connected_def)

lemma set_keys_insert: "set (RBT.keys (RBT.insert k v t)) = insert k (set (RBT.keys t))"
  by (simp add: lookup_keys [symmetric])

lemma neighbors_of_insert_connected:
  "neighbors_of (insert_connected host system cs) h =
     (if h = host then insert system (neighbors_of cs host) else neighbors_of cs h)"
  by (simp add: neighbors_of_def lookup_insert_connected set_keys_insert split: option.splits)

lemma dom_insert_connected:
  "dom (RBT.lookup (insert_connected host system cs)) = insert host (dom (RBT.lookup cs))"
  by (auto simp: lookup_insert_connected split: if_splits)

lemma neighbors_of_empty: "neighbors_of RBT.empty h = {}"
  by (simp add: neighbors_of_def)

subsection \<open>The loop of \<^verbatim>\<open>IdentifyConnectedSystems\<close>\<close>

lemma IdentifyConnectedSystems_loop_any:
  "\<exists>cs'. IdentifyConnectedSystems_loop lines cs = Inr cs'"
proof (induction lines arbitrary: cs)
  case Nil
  show ?case by simp
next
  case (Cons line rest)
  obtain host system where
    "IdentifyConnectedSystems_line line cs = Inr (insert_connected host system cs)"
    using IdentifyConnectedSystems_line_any by blast
  with Cons.IH [of "insert_connected host system cs"] show ?case by simp
qed

lemma IdentifyConnectedSystems_loop_keys:
  assumes "IdentifyConnectedSystems_loop lines cs = Inr cs'"
    and "\<forall>h\<in>dom (RBT.lookup cs). CHR '' '' \<notin> set h"
  shows "\<forall>h\<in>dom (RBT.lookup cs'). CHR '' '' \<notin> set h"
  using assms
proof (induction lines arbitrary: cs)
  case Nil
  then show ?case by simp
next
  case (Cons line rest)
  obtain host system where
    l: "IdentifyConnectedSystems_line line cs = Inr (insert_connected host system cs)"
    and h: "CHR '' '' \<notin> set host"
    using IdentifyConnectedSystems_line_any by blast
  from Cons.prems(1) l
  have "IdentifyConnectedSystems_loop rest (insert_connected host system cs) = Inr cs'"
    by simp
  moreover from Cons.prems(2) h
  have "\<forall>h\<in>dom (RBT.lookup (insert_connected host system cs)). CHR '' '' \<notin> set h"
    by (simp add: dom_insert_connected)
  ultimately show ?case by (rule Cons.IH)
qed

lemma IdentifyConnectedSystems_loop_nonempty:
  assumes "IdentifyConnectedSystems_loop lines cs = Inr cs'"
    and "\<forall>h\<in>dom (RBT.lookup cs). neighbors_of cs h \<noteq> {}"
  shows "\<forall>h\<in>dom (RBT.lookup cs'). neighbors_of cs' h \<noteq> {}"
  using assms
proof (induction lines arbitrary: cs)
  case Nil
  then show ?case by simp
next
  case (Cons line rest)
  obtain host system where
    l: "IdentifyConnectedSystems_line line cs = Inr (insert_connected host system cs)"
    using IdentifyConnectedSystems_line_any by blast
  from Cons.prems(1) l
  have "IdentifyConnectedSystems_loop rest (insert_connected host system cs) = Inr cs'"
    by simp
  moreover from Cons.prems(2)
  have "\<forall>h\<in>dom (RBT.lookup (insert_connected host system cs)).
          neighbors_of (insert_connected host system cs) h \<noteq> {}"
    by (simp add: dom_insert_connected neighbors_of_insert_connected)
  ultimately show ?case by (rule Cons.IH)
qed

lemma IdentifyConnectedSystems_loop_short:
  assumes "\<forall>l\<in>set lines. length l < 2 ^ 64"
  shows "IdentifyConnectedSystems_loop lines cs =
           Inr (fold (\<lambda>l. insert_connected (line_host l) (line_system l)) lines cs)"
  using assms
  by (induction lines arbitrary: cs) (simp_all add: IdentifyConnectedSystems_line_short)

lemma neighbors_of_fold:
  "neighbors_of (fold (\<lambda>l. insert_connected (line_host l) (line_system l)) lines cs) h =
     neighbors_of cs h \<union> {line_system l | l. l \<in> set lines \<and> line_host l = h}"
  by (induction lines arbitrary: cs) (auto simp: neighbors_of_insert_connected)

lemma dom_lookup_fold:
  "dom (RBT.lookup (fold (\<lambda>l. insert_connected (line_host l) (line_system l)) lines cs)) =
     dom (RBT.lookup cs) \<union> line_host ` set lines"
  by (induction lines arbitrary: cs) (auto simp: dom_insert_connected)

lemma neighbors_of_mono:
  assumes "IdentifyConnectedSystems_loop lines cs = Inr cs'"
  shows "neighbors_of cs h \<subseteq> neighbors_of cs' h"
  using assms
proof (induction lines arbitrary: cs)
  case Nil
  then show ?case by simp
next
  case (Cons line rest)
  obtain host system where
    l: "IdentifyConnectedSystems_line line cs = Inr (insert_connected host system cs)"
    using IdentifyConnectedSystems_line_any by blast
  from Cons.prems l
  have "IdentifyConnectedSystems_loop rest (insert_connected host system cs) = Inr cs'"
    by simp
  then have "neighbors_of (insert_connected host system cs) h \<subseteq> neighbors_of cs' h"
    by (rule Cons.IH)
  then show ?case by (auto simp: neighbors_of_insert_connected split: if_splits)
qed

subsection \<open>What the stream operations leave alone\<close>

lemma globals_stream_put: "globals (stream_put good name text s) = globals s"
  by (simp add: globals_def stream_put_def)

lemma globals_ofstream_open: "globals (snd (ofstream_open name s)) = globals s"
  by (simp add: globals_def ofstream_open_def)

lemma globals_ofstream_open_app: "globals (snd (ofstream_open_app name s)) = globals s"
  by (simp add: globals_def ofstream_open_app_def)

lemma globals_StealData_loop: "globals (StealData_loop ls s) = globals s"
  by (induction ls arbitrary: s) (simp_all add: globals_stream_put)

lemma globals_StealData: "globals (StealData s) = globals s"
  using globals_ofstream_open [of "''stolen_data.txt''" s]
  by (auto simp: StealData_def Let_def globals_StealData_loop split: prod.splits)

lemma globals_SendSpamEmails_loop: "globals (SendSpamEmails_loop cs s) = globals s"
proof (induction cs arbitrary: s)
  case Nil
  show ?case by simp
next
  case (Cons c cs)
  show ?case
    using globals_ofstream_open [of "c @ ''_spam_email.txt''" s]
    by (auto simp: Cons.IH globals_stream_put split: prod.splits)
qed

lemma globals_ReplicatePrompt_loop: "globals (ReplicatePrompt_loop r cs s) = globals s"
proof (induction cs arbitrary: s)
  case Nil
  show ?case by simp
next
  case (Cons c cs)
  show ?case
    using globals_ofstream_open [of "c @ ''_replicated_email.txt''" s]
    by (auto simp: Cons.IH globals_stream_put split: prod.splits)
qed

lemma globals_ProcessAdversarialPrompt: "globals (ProcessAdversarialPrompt email s) = globals s"
  by (simp add: ProcessAdversarialPrompt_def ReplicatePrompt_def SendSpamEmails_def
      globals_ReplicatePrompt_loop globals_SendSpamEmails_loop globals_StealData)

lemma globals_Run_scan: "globals (Run_scan es s) = globals s"
  by (induction es arbitrary: s) (simp_all add: globals_ProcessAdversarialPrompt)

lemma globals_LogTransmission: "globals (LogTransmission host system s) = globals s"
  using globals_ofstream_open_app [of "''transmission_log.txt''" s]
  by (auto simp: LogTransmission_def globals_stream_put split: prod.splits)

lemma globals_LogInfection: "globals (LogInfection host system s) = globals s"
  using globals_ofstream_open_app [of "''infection_log.txt''" s]
  by (auto simp: LogInfection_def globals_stream_put split: prod.splits)

lemma globals_SendPrompt: "globals (SendPrompt host system s) = globals s"
  by (simp add: SendPrompt_def globals_LogInfection globals_LogTransmission)

lemma globals_Run_systems: "globals (Run_systems host systems s) = globals s"
  by (induction systems arbitrary: s) (simp_all add: globals_SendPrompt)

lemma globals_Run_hosts: "globals (Run_hosts es s) = globals s"
  by (induction es arbitrary: s) (auto simp: globals_Run_systems)

lemma globals_Run_propagate: "globals (Run_propagate s) = globals s"
  by (simp add: Run_propagate_def globals_Run_hosts)

lemma globalsD:
  assumes "globals s' = globals s"
  shows "contacts s' = contacts s" and "connected_systems s' = connected_systems s"
    and "infected_systems s' = infected_systems s" and "unwritable s' = unwritable s"
  using assms by (simp_all add: globals_def)

subsection \<open>The names of the program's own sinks\<close>

lemma c_str_literal [simp]:
  "c_str ''stolen_data.txt'' = ''stolen_data.txt''"
  "c_str ''transmission_log.txt'' = ''transmission_log.txt''"
  "c_str ''infection_log.txt'' = ''infection_log.txt''"
  by (simp_all add: c_str_def)

lemma can_open_literal [simp]:
  "can_open ro ''stolen_data.txt'' \<longleftrightarrow> ''stolen_data.txt'' \<notin> ro"
  "can_open ro ''transmission_log.txt'' \<longleftrightarrow> ''transmission_log.txt'' \<notin> ro"
  "can_open ro ''infection_log.txt'' \<longleftrightarrow> ''infection_log.txt'' \<notin> ro"
  by (simp_all add: can_open_def)

subsection \<open>The ledger writes\<close>

lemma trace_LogTransmission:
  "trace (LogTransmission host system s) =
     trace s @ filter (\<lambda>e. fst e \<notin> unwritable s)
                 [(''transmission_log.txt'', transmission_line (host, system))]"
  by (simp add: LogTransmission_def ofstream_open_app_def stream_put_def transmission_line_def)

lemma trace_LogInfection:
  "trace (LogInfection host system s) =
     trace s @ filter (\<lambda>e. fst e \<notin> unwritable s)
                 [(''infection_log.txt'', infection_line (host, system))]"
  by (simp add: LogInfection_def ofstream_open_app_def stream_put_def infection_line_def)

lemma trace_SendPrompt:
  "trace (SendPrompt host system s) =
     trace s @ filter (\<lambda>e. fst e \<notin> unwritable s) (edge_writes (host, system))"
proof -
  have "unwritable (LogTransmission host system s) = unwritable s"
    by (rule globalsD(4) [OF globals_LogTransmission])
  then show ?thesis
    by (simp add: SendPrompt_def trace_LogInfection trace_LogTransmission edge_writes_def)
qed

lemma trace_Run_systems:
  "trace (Run_systems host systems s) =
     trace s @ filter (\<lambda>e. fst e \<notin> unwritable s)
                 (concat (map (\<lambda>system. edge_writes (host, system)) systems))"
proof (induction systems arbitrary: s)
  case Nil
  show ?case by simp
next
  case (Cons system rest)
  have "unwritable (SendPrompt host system s) = unwritable s"
    by (rule globalsD(4) [OF globals_SendPrompt])
  then show ?case by (simp add: Cons.IH trace_SendPrompt)
qed

lemma trace_Run_hosts:
  "trace (Run_hosts es s) =
     trace s @ filter (\<lambda>e. fst e \<notin> unwritable s)
       (concat (map edge_writes
          (concat (map (\<lambda>(host, systems). map (Pair host) (RBT.keys systems)) es))))"
proof (induction es arbitrary: s)
  case Nil
  show ?case by simp
next
  case (Cons e rest)
  obtain host systems where e: "e = (host, systems)" by (cases e)
  have "unwritable (Run_systems host (RBT.keys systems) s) = unwritable s"
    by (rule globalsD(4) [OF globals_Run_systems])
  then show ?case
    by (simp add: e Cons.IH trace_Run_systems map_concat comp_def)
qed

lemma trace_Run_propagate:
  "trace (Run_propagate s) =
     trace s @ filter (\<lambda>e. fst e \<notin> unwritable s)
                 (concat (map edge_writes (edges (connected_systems s))))"
  by (simp add: Run_propagate_def trace_Run_hosts edges_def)

subsection \<open>The pairs visited by the second loop\<close>

lemma fst_pairs:
  "p \<in> set (concat (map (\<lambda>(host, systems). map (Pair host) (RBT.keys systems)) es))
     \<Longrightarrow> fst p \<in> fst ` set es"
  by (induction es) auto

lemma distinct_pairs:
  assumes "distinct (map fst es)"
  shows "distinct (concat (map (\<lambda>(host, systems). map (Pair host) (RBT.keys systems)) es))"
  using assms
proof (induction es)
  case Nil
  show ?case by simp
next
  case (Cons e rest)
  obtain host systems where e: "e = (host, systems)" by (cases e)
  let ?rest = "concat (map (\<lambda>(host, systems). map (Pair host) (RBT.keys systems)) rest)"
  from Cons.prems have notin: "host \<notin> fst ` set rest" by (simp add: e)
  have "set (map (Pair host) (RBT.keys systems)) \<inter> set ?rest = {}"
  proof (rule ccontr)
    assume "set (map (Pair host) (RBT.keys systems)) \<inter> set ?rest \<noteq> {}"
    then obtain p where p1: "p \<in> set (map (Pair host) (RBT.keys systems))"
      and p2: "p \<in> set ?rest"
      by blast
    from p1 have "fst p = host" by auto
    moreover from p2 have "fst p \<in> fst ` set rest" by (rule fst_pairs)
    ultimately show False using notin by simp
  qed
  moreover have "distinct (map (Pair host) (RBT.keys systems))"
    by (simp add: distinct_map inj_on_def)
  moreover from Cons have "distinct ?rest" by simp
  ultimately show ?case by (simp add: e)
qed

lemma distinct_edges: "distinct (edges cs)"
  unfolding edges_def by (rule distinct_pairs) (rule RBT.distinct_entries)

lemma set_edges: "set (edges cs) = {(host, system). system \<in> neighbors_of cs host}"
proof -
  have "(host, system) \<in> set (edges cs) \<longleftrightarrow> system \<in> neighbors_of cs host" for host system
  proof
    assume "(host, system) \<in> set (edges cs)"
    then obtain systems where "(host, systems) \<in> set (RBT.entries cs)"
      and "system \<in> set (RBT.keys systems)"
      by (auto simp: edges_def)
    then show "system \<in> neighbors_of cs host"
      by (simp add: neighbors_of_def RBT.lookup_in_tree [symmetric])
  next
    assume "system \<in> neighbors_of cs host"
    then obtain systems where "RBT.lookup cs host = Some systems"
      and s: "system \<in> set (RBT.keys systems)"
      by (auto simp: neighbors_of_def split: option.splits)
    then have "(host, systems) \<in> set (RBT.entries cs)"
      by (simp add: RBT.lookup_in_tree)
    with s show "(host, system) \<in> set (edges cs)"
      by (force simp: edges_def)
  qed
  then show ?thesis by auto
qed

subsection \<open>Ledger lines determine their edge\<close>

lemma takeWhile_field:
  assumes "c \<notin> set xs"
  shows "takeWhile (\<lambda>x. x \<noteq> c) (xs @ c # ys) = xs"
  using assms by (induction xs) auto

lemma transmission_line_inj:
  assumes "transmission_line (h, t) = transmission_line (h', t')"
    and "CHR '' '' \<notin> set h" and "CHR '' '' \<notin> set h'"
  shows "h = h' \<and> t = t'"
proof -
  from assms(1) have eq: "h @ CHR '' '' # (''-> '' @ t @ [newline]) = h' @ CHR '' '' # (''-> '' @ t' @ [newline])"
    by (simp add: transmission_line_def)
  then have "takeWhile (\<lambda>x. x \<noteq> CHR '' '') (h @ CHR '' '' # (''-> '' @ t @ [newline])) =
             takeWhile (\<lambda>x. x \<noteq> CHR '' '') (h' @ CHR '' '' # (''-> '' @ t' @ [newline]))"
    by (rule arg_cong)
  then have "h = h'" by (simp only: takeWhile_field [OF assms(2)] takeWhile_field [OF assms(3)])
  with eq show ?thesis by simp
qed

lemma infection_line_inj:
  assumes "infection_line (h, t) = infection_line (h', t')"
    and "CHR '' '' \<notin> set h" and "CHR '' '' \<notin> set h'"
  shows "h = h' \<and> t = t'"
proof -
  from assms(1) have eq: "h @ CHR '' '' # (''infected '' @ t @ [newline]) = h' @ CHR '' '' # (''infected '' @ t' @ [newline])"
    by (simp add: infection_line_def)
  then have "takeWhile (\<lambda>x. x \<noteq> CHR '' '') (h @ CHR '' '' # (''infected '' @ t @ [newline])) =
             takeWhile (\<lambda>x. x \<noteq> CHR '' '') (h' @ CHR '' '' # (''infected '' @ t' @ [newline]))"
    by (rule arg_cong)
  then have "h = h'" by (simp only: takeWhile_field [OF assms(2)] takeWhile_field [OF assms(3)])
  with eq show ?thesis by simp
qed

subsection \<open>File names\<close>

lemma rev_neq: "rev xs \<noteq> rev ys \<Longrightarrow> xs \<noteq> ys"
  by auto




lemma spam_name_neq [simp]:
  "c @ ''_spam_email.txt'' \<noteq> ''stolen_data.txt''"
  "c @ ''_spam_email.txt'' \<noteq> ''data.txt''"
  by (rule rev_neq, simp)+

lemma replicated_name_neq [simp]:
  "c @ ''_replicated_email.txt'' \<noteq> ''stolen_data.txt''"
  "c @ ''_replicated_email.txt'' \<noteq> ''data.txt''"
  by (rule rev_neq, simp)+

subsection \<open>The payload's writes\<close>

lemma SendSpamEmails_loop_Cons:
  "SendSpamEmails_loop (c # rest) s =
     SendSpamEmails_loop rest (put_file (c @ ''_spam_email.txt'') ''This is a spam email.'' s)"
  by (simp add: ofstream_open_def stream_put_def put_file_def)

lemma ReplicatePrompt_loop_Cons:
  "ReplicatePrompt_loop r (c # rest) s =
     ReplicatePrompt_loop r rest (put_file (c @ ''_replicated_email.txt'') r s)"
  by (simp add: ofstream_open_def stream_put_def put_file_def)

lemma unwritable_put_file: "unwritable (put_file name text s) = unwritable s"
  by (simp add: put_file_def)

lemma trace_put_file:
  "trace (put_file name text s) =
     trace s @ (if can_open (unwritable s) name then [(c_str name, text)] else [])"
  by (simp add: put_file_def)

lemma files_put_file_kept:
  "name' = [] \<or> name' \<in> unwritable s \<or> name' \<noteq> c_str name \<Longrightarrow>
     files (put_file name text s) name' = files s name'"
  by (auto simp: put_file_def can_open_def)

lemma trace_SendSpamEmails_loop:
  "trace (SendSpamEmails_loop cs s) = trace s @ spam_writes (unwritable s) cs"
proof (induction cs arbitrary: s)
  case Nil
  show ?case by (simp add: spam_writes_def)
next
  case (Cons c cs)
  show ?case
    unfolding SendSpamEmails_loop_Cons Cons.IH
    by (simp add: trace_put_file unwritable_put_file spam_writes_def)
qed

lemma trace_ReplicatePrompt_loop:
  "trace (ReplicatePrompt_loop (email @ '' replicated_prompt'') cs s) =
     trace s @ replicated_writes (unwritable s) cs email"
proof (induction cs arbitrary: s)
  case Nil
  show ?case by (simp add: replicated_writes_def)
next
  case (Cons c cs)
  show ?case
    unfolding ReplicatePrompt_loop_Cons Cons.IH
    by (simp add: trace_put_file unwritable_put_file replicated_writes_def)
qed

lemma files_SendSpamEmails_loop_kept:
  assumes "name = [] \<or> name \<in> unwritable s \<or>
           name \<notin> (\<lambda>c. c_str (c @ ''_spam_email.txt'')) ` set cs"
  shows "files (SendSpamEmails_loop cs s) name = files s name"
  using assms
proof (induction cs arbitrary: s)
  case Nil
  show ?case by simp
next
  case (Cons c cs)
  let ?s1 = "put_file (c @ ''_spam_email.txt'') ''This is a spam email.'' s"
  from Cons.prems have "name = [] \<or> name \<in> unwritable ?s1 \<or>
      name \<notin> (\<lambda>c. c_str (c @ ''_spam_email.txt'')) ` set cs"
    by (auto simp: unwritable_put_file)
  then have "files (SendSpamEmails_loop cs ?s1) name = files ?s1 name" by (rule Cons.IH)
  moreover from Cons.prems have "files ?s1 name = files s name"
    by (intro files_put_file_kept) auto
  ultimately show ?case unfolding SendSpamEmails_loop_Cons by simp
qed

lemma files_ReplicatePrompt_loop_kept:
  assumes "name = [] \<or> name \<in> unwritable s \<or>
           name \<notin> (\<lambda>c. c_str (c @ ''_replicated_email.txt'')) ` set cs"
  shows "files (ReplicatePrompt_loop r cs s) name = files s name"
  using assms
proof (induction cs arbitrary: s)
  case Nil
  show ?case by simp
next
  case (Cons c cs)
  let ?s1 = "put_file (c @ ''_replicated_email.txt'') r s"
  from Cons.prems have "name = [] \<or> name \<in> unwritable ?s1 \<or>
      name \<notin> (\<lambda>c. c_str (c @ ''_replicated_email.txt'')) ` set cs"
    by (auto simp: unwritable_put_file)
  then have "files (ReplicatePrompt_loop r cs ?s1) name = files ?s1 name" by (rule Cons.IH)
  moreover from Cons.prems have "files ?s1 name = files s name"
    by (intro files_put_file_kept) auto
  ultimately show ?case unfolding ReplicatePrompt_loop_Cons by simp
qed

lemma files_StealData_loop:
  "name \<noteq> ''stolen_data.txt'' \<Longrightarrow> files (StealData_loop ls s) name = files s name"
  by (induction ls arbitrary: s) (simp_all add: stream_put_def)

lemma trace_StealData_loop:
  "trace (StealData_loop ls s) = trace s @ steal_writes ls"
  by (induction ls arbitrary: s) (simp_all add: stream_put_def steal_writes_def)

lemma files_StealData:
  "name \<noteq> ''stolen_data.txt'' \<Longrightarrow> files (StealData s) name = files s name"
  by (simp add: StealData_def ofstream_open_def files_StealData_loop)

lemma trace_StealData:
  "\<exists>ls. trace (StealData s) = trace s @ steal_writes ls \<and>
        (''stolen_data.txt'' \<in> unwritable s \<longrightarrow> ls = [])"
proof (cases "ifstream_good s ''data.txt'' \<and> ''stolen_data.txt'' \<notin> unwritable s")
  case True
  then have "trace (StealData s) = trace s @ steal_writes (ifstream_lines s ''data.txt'')"
    by (simp add: StealData_def ofstream_open_def trace_StealData_loop)
  with True show ?thesis by blast
next
  case False
  then have "trace (StealData s) = trace s @ steal_writes []"
    by (auto simp: StealData_def ofstream_open_def steal_writes_def)
  then show ?thesis by blast
qed


lemma StealData_unwritable:
  assumes "''stolen_data.txt'' \<in> unwritable s"
  shows "StealData s = s"
  using assms by (simp add: StealData_def ofstream_open_def)

subsection \<open>One run of the payload\<close>

lemma files_ProcessAdversarialPrompt_unwritable:
  assumes "name = [] \<or> name \<in> unwritable s"
  shows "files (ProcessAdversarialPrompt email s) name = files s name"
proof -
  let ?s1 = "StealData s"
  let ?s2 = "SendSpamEmails_loop (contacts s) ?s1"
  have g: "globals ?s1 = globals s" by (rule globals_StealData)
  have g2: "globals ?s2 = globals s" by (simp add: globals_SendSpamEmails_loop g)
  have 1: "files ?s1 name = files s name"
  proof (cases "name = ''stolen_data.txt''")
    case True
    with assms show ?thesis by (auto simp: StealData_unwritable)
  next
    case False
    then show ?thesis by (rule files_StealData)
  qed
  from assms have "name = [] \<or> name \<in> unwritable ?s1 \<or>
      name \<notin> (\<lambda>c. c_str (c @ ''_spam_email.txt'')) ` set (contacts s)"
    by (auto simp: globalsD(4) [OF g])
  then have 2: "files ?s2 name = files ?s1 name" by (rule files_SendSpamEmails_loop_kept)
  from assms have "name = [] \<or> name \<in> unwritable ?s2 \<or>
      name \<notin> (\<lambda>c. c_str (c @ ''_replicated_email.txt'')) ` set (contacts s)"
    by (auto simp: globalsD(4) [OF g2])
  then have "files (ReplicatePrompt_loop (email @ '' replicated_prompt'') (contacts s) ?s2) name =
      files ?s2 name"
    by (rule files_ReplicatePrompt_loop_kept)
  with 1 2 show ?thesis
    by (simp add: ProcessAdversarialPrompt_def ReplicatePrompt_def SendSpamEmails_def
        globalsD(1) [OF g] globalsD(1) [OF g2])
qed



lemma trace_ProcessAdversarialPrompt:
  "\<exists>ls. trace (ProcessAdversarialPrompt email s) =
          trace s @ payload_writes (unwritable s) (contacts s) (email, ls) \<and>
        (''stolen_data.txt'' \<in> unwritable s \<longrightarrow> ls = [])"
proof -
  let ?s1 = "StealData s"
  let ?s2 = "SendSpamEmails_loop (contacts s) ?s1"
  have g: "globals ?s1 = globals s" by (rule globals_StealData)
  have g2: "globals ?s2 = globals s" by (simp add: globals_SendSpamEmails_loop g)
  obtain ls where "trace ?s1 = trace s @ steal_writes ls"
    and e: "''stolen_data.txt'' \<in> unwritable s \<longrightarrow> ls = []"
    using trace_StealData by blast
  then have "trace (ProcessAdversarialPrompt email s) =
      trace s @ payload_writes (unwritable s) (contacts s) (email, ls)"
    by (simp add: ProcessAdversarialPrompt_def ReplicatePrompt_def SendSpamEmails_def
        trace_ReplicatePrompt_loop trace_SendSpamEmails_loop payload_writes_def
        globalsD(1) [OF g] globalsD(4) [OF g] globalsD(1) [OF g2] globalsD(4) [OF g2])
  with e show ?thesis by blast
qed

lemma trace_Run_scan:
  "\<exists>steals. length steals = length (filter IsAdversarialPrompt es) \<and>
     (''stolen_data.txt'' \<in> unwritable s \<longrightarrow> (\<forall>ls\<in>set steals. ls = [])) \<and>
     trace (Run_scan es s) =
       trace s @ concat (map (payload_writes (unwritable s) (contacts s))
                          (zip (filter IsAdversarialPrompt es) steals))"
proof (induction es arbitrary: s)
  case Nil
  show ?case by simp
next
  case (Cons e es)
  show ?case
  proof (cases "IsAdversarialPrompt e")
    case True
    let ?s1 = "ProcessAdversarialPrompt e s"
    have g: "globals ?s1 = globals s" by (rule globals_ProcessAdversarialPrompt)
    obtain ls where 1: "trace ?s1 = trace s @ payload_writes (unwritable s) (contacts s) (e, ls)"
      and 0: "''stolen_data.txt'' \<in> unwritable s \<longrightarrow> ls = []"
      using trace_ProcessAdversarialPrompt by blast
    obtain steals where 2: "length steals = length (filter IsAdversarialPrompt es)"
      and 4: "''stolen_data.txt'' \<in> unwritable ?s1 \<longrightarrow> (\<forall>ls\<in>set steals. ls = [])"
      and 3: "trace (Run_scan es ?s1) =
        trace ?s1 @ concat (map (payload_writes (unwritable ?s1) (contacts ?s1))
                          (zip (filter IsAdversarialPrompt es) steals))"
      using Cons.IH by blast
    from 2 True have "length (ls # steals) = length (filter IsAdversarialPrompt (e # es))"
      by simp
    moreover from 0 4 have "''stolen_data.txt'' \<in> unwritable s \<longrightarrow> (\<forall>l\<in>set (ls # steals). l = [])"
      by (simp add: globalsD(4) [OF g])
    moreover from 1 3 True have "trace (Run_scan (e # es) s) =
        trace s @ concat (map (payload_writes (unwritable s) (contacts s))
                          (zip (filter IsAdversarialPrompt (e # es)) (ls # steals)))"
      by (simp add: globalsD(1) [OF g] globalsD(4) [OF g])
    ultimately show ?thesis by blast
  next
    case False
    then show ?thesis using Cons.IH [of s] by simp
  qed
qed

lemma payload_write_text:
  assumes "w \<in> set (payload_writes ro cs p)"
  shows "fst w = ''stolen_data.txt'' \<or> (snd w \<noteq> [] \<and> last (snd w) \<noteq> newline)"
  using assms
  by (auto simp: payload_writes_def steal_writes_def spam_writes_def replicated_writes_def
      newline_def)

lemma payload_write_name:
  assumes "w \<in> set (payload_writes ro cs (email, ls))"
    and "''stolen_data.txt'' \<in> ro \<longrightarrow> ls = []"
  shows "fst w \<noteq> [] \<and> fst w \<notin> ro"
  using assms
  by (auto simp: payload_writes_def steal_writes_def spam_writes_def replicated_writes_def
      can_open_def)

lemma trace_Run_scan_texts:
  "\<exists>ws. trace (Run_scan es s) = trace s @ ws \<and>
     (\<forall>w\<in>set ws. fst w = ''stolen_data.txt'' \<or> (snd w \<noteq> [] \<and> last (snd w) \<noteq> newline))"
proof -
  obtain steals where "trace (Run_scan es s) =
       trace s @ concat (map (payload_writes (unwritable s) (contacts s))
                          (zip (filter IsAdversarialPrompt es) steals))"
    using trace_Run_scan by blast
  moreover have "\<forall>w\<in>set (concat (map (payload_writes (unwritable s) (contacts s))
                          (zip (filter IsAdversarialPrompt es) steals))).
      fst w = ''stolen_data.txt'' \<or> (snd w \<noteq> [] \<and> last (snd w) \<noteq> newline)"
    by (auto dest: payload_write_text)
  ultimately show ?thesis by blast
qed

lemma Run_scan_fold:
  "Run_scan es s = fold ProcessAdversarialPrompt (filter IsAdversarialPrompt es) s"
  by (induction es arbitrary: s) simp_all

subsection \<open>Initialisation and the whole run\<close>

lemma Initialize_loop_eq: "Initialize_loop ls s = s\<lparr>contacts := contacts s @ ls\<rparr>"
  by (induction ls arbitrary: s) simp_all

lemma ifstream_lines_contacts_upd [simp]:
  "ifstream_lines (s\<lparr>contacts := x\<rparr>) name = ifstream_lines s name"
  by (simp add: ifstream_lines_def)

lemma Initialize_eq:
  "\<exists>cs. IdentifyConnectedSystems_loop (ifstream_lines s ''connected_systems.txt'')
           (connected_systems s) = Inr cs \<and>
        Initialize s = Inr (s\<lparr>contacts := contacts s @ ifstream_lines s ''contacts.txt'',
                               connected_systems := cs\<rparr>)"
proof -
  obtain cs where "IdentifyConnectedSystems_loop (ifstream_lines s ''connected_systems.txt'')
           (connected_systems s) = Inr cs"
    using IdentifyConnectedSystems_loop_any by blast
  then show ?thesis
    by (simp add: Initialize_def IdentifyConnectedSystems_def Initialize_loop_eq)
qed

lemma Run_eq:
  "\<exists>cs. IdentifyConnectedSystems_loop (ifstream_lines s ''connected_systems.txt'')
           (connected_systems s) = Inr cs \<and>
        Run s = Inr (Run_propagate (Run_scan (contacts s @ ifstream_lines s ''contacts.txt'')
                  (s\<lparr>contacts := contacts s @ ifstream_lines s ''contacts.txt'',
                     connected_systems := cs\<rparr>)))"
proof -
  obtain cs where "IdentifyConnectedSystems_loop (ifstream_lines s ''connected_systems.txt'')
           (connected_systems s) = Inr cs"
    and "Initialize s = Inr (s\<lparr>contacts := contacts s @ ifstream_lines s ''contacts.txt'',
                               connected_systems := cs\<rparr>)"
    using Initialize_eq by blast
  then show ?thesis by (simp add: Run_def)
qed

lemma main_exits_0: "\<exists>s'. main fs ro = Inr (0, s')"
proof -
  obtain s' where "Run (initial fs ro) = Inr s'" using Run_eq by blast
  then show ?thesis by (simp add: main_def)
qed

lemma getlines_Nil: "getlines [] = []"
  by (simp add: getlines.simps getline_def)

lemma ifstream_lines_empty:
  "files s name = None \<or> files s name = Some [] \<Longrightarrow> ifstream_lines s name = []"
  by (auto simp: ifstream_lines_def getlines_Nil)

lemma entries_empty: "RBT.entries (RBT.empty :: ('a::linorder, 'b) rbt) = []"
proof -
  have "map fst (RBT.entries (RBT.empty :: ('a, 'b) rbt)) = RBT.keys (RBT.empty :: ('a, 'b) rbt)"
    by (simp add: keys_def_alt)
  then show ?thesis by simp
qed

lemma Run_propagate_empty: "connected_systems s = RBT.empty \<Longrightarrow> Run_propagate s = s"
  by (simp add: Run_propagate_def entries_empty)

lemma main_no_sources:
  assumes "fs ''contacts.txt'' = None \<or> fs ''contacts.txt'' = Some []"
    and "fs ''connected_systems.txt'' = None \<or> fs ''connected_systems.txt'' = Some []"
  shows "main fs ro = Inr (0, initial fs ro)"
proof -
  have c: "ifstream_lines (initial fs ro) ''contacts.txt'' = []"
    using assms(1) by (intro ifstream_lines_empty) (simp add: initial_def)
  have t: "ifstream_lines (initial fs ro) ''connected_systems.txt'' = []"
    using assms(2) by (intro ifstream_lines_empty) (simp add: initial_def)
  have i: "Initialize (initial fs ro) = Inr (initial fs ro)"
    by (simp add: Initialize_def IdentifyConnectedSystems_def c t)
  have "Run_propagate (initial fs ro) = initial fs ro"
    by (rule Run_propagate_empty) (simp add: initial_def)
  moreover have "contacts (initial fs ro) = []" by (simp add: initial_def)
  ultimately show ?thesis by (simp add: main_def Run_def i)
qed

subsection \<open>Reading concrete files\<close>

lemma getlines_single:
  assumes "stream \<noteq> []" and "newline \<notin> set stream"
  shows "getlines stream = [stream]"
proof -
  from assms(2) have tw: "takeWhile (\<lambda>c. c \<noteq> newline) stream = stream"
    by (auto simp: takeWhile_eq_all_conv)
  from assms(2) have dw: "dropWhile (\<lambda>c. c \<noteq> newline) stream = []"
    by (auto simp: dropWhile_eq_Nil_conv)
  have "getline stream = Some (stream, [])" using assms(1) by (simp add: getline_def tw dw)
  then show ?thesis by (simp add: getlines.simps [of stream] getlines_Nil)
qed

lemma getlines_line:
  assumes "newline \<notin> set line"
  shows "getlines (line @ newline # rest) = line # getlines rest"
proof -
  from assms have "takeWhile (\<lambda>c. c \<noteq> newline) (line @ newline # rest) = line"
    by (rule takeWhile_field)
  moreover from assms have "dropWhile (\<lambda>c. c \<noteq> newline) (line @ newline # rest) = newline # rest"
    by (induction line) auto
  ultimately have "getline (line @ newline # rest) = Some (line, rest)"
    by (simp add: getline_def)
  then show ?thesis by (simp add: getlines.simps [of "line @ newline # rest"])
qed

subsection \<open>The run from the initial state\<close>

lemma main_eq:
  assumes "IdentifyConnectedSystems_loop
             (case fs ''connected_systems.txt'' of None \<Rightarrow> [] | Some c \<Rightarrow> getlines c)
             RBT.empty = Inr cs"
  shows "main fs ro =
           Inr (0, Run_propagate
                 (Run_scan (case fs ''contacts.txt'' of None \<Rightarrow> [] | Some c \<Rightarrow> getlines c)
                    \<lparr>contacts = (case fs ''contacts.txt'' of None \<Rightarrow> [] | Some c \<Rightarrow> getlines c),
                     connected_systems = cs, infected_systems = RBT.empty,
                     files = fs, unwritable = ro, trace = []\<rparr>))"
  using assms
  by (simp add: main_def Run_def Initialize_def IdentifyConnectedSystems_def Initialize_loop_eq
      ifstream_lines_def initial_def)

lemma main_cases:
  obtains cs where
    "IdentifyConnectedSystems_loop
       (case fs ''connected_systems.txt'' of None \<Rightarrow> [] | Some c \<Rightarrow> getlines c)
       RBT.empty = Inr cs"
    and "main fs ro =
           Inr (0, Run_propagate
                 (Run_scan (case fs ''contacts.txt'' of None \<Rightarrow> [] | Some c \<Rightarrow> getlines c)
                    \<lparr>contacts = (case fs ''contacts.txt'' of None \<Rightarrow> [] | Some c \<Rightarrow> getlines c),
                     connected_systems = cs, infected_systems = RBT.empty,
                     files = fs, unwritable = ro, trace = []\<rparr>))"
proof -
  obtain cs where "IdentifyConnectedSystems_loop
       (case fs ''connected_systems.txt'' of None \<Rightarrow> [] | Some c \<Rightarrow> getlines c)
       RBT.empty = Inr cs"
    using IdentifyConnectedSystems_loop_any by blast
  with that main_eq show ?thesis by blast
qed

lemma globals_main_state:
  "globals (Run_propagate (Run_scan es s)) = globals s"
  by (simp add: globals_Run_propagate globals_Run_scan)

subsection \<open>The second loop as a fold over the edges\<close>

lemma Run_systems_fold:
  "Run_systems host systems s = fold (\<lambda>system. SendPrompt host system) systems s"
  by (induction systems arbitrary: s) simp_all

lemma Run_hosts_fold:
  "Run_hosts es s =
     fold (\<lambda>e. SendPrompt (fst e) (snd e))
       (concat (map (\<lambda>(host, systems). map (Pair host) (RBT.keys systems)) es)) s"
  by (induction es arbitrary: s) (auto simp: Run_systems_fold fold_map comp_def)

lemma Run_propagate_fold:
  "Run_propagate s = fold (\<lambda>e. SendPrompt (fst e) (snd e)) (edges (connected_systems s)) s"
  by (simp add: Run_propagate_def Run_hosts_fold edges_def)

subsection \<open>A topology of one line\<close>

lemma distinct_set_singleton:
  assumes "set xs = {x}" and "distinct xs"
  shows "xs = [x]"
proof (cases xs)
  case Nil
  with assms(1) show ?thesis by simp
next
  case (Cons a ys)
  with assms(1) have a: "a = x" by auto
  from assms(1) Cons have "set ys \<subseteq> {x}" by auto
  moreover from assms(2) Cons a have "x \<notin> set ys" by simp
  ultimately have "ys = []" by (cases ys) auto
  with Cons a show ?thesis by simp
qed

lemma loop_A_B:
  "IdentifyConnectedSystems_loop [''A B''] RBT.empty = Inr (insert_connected ''A'' ''B'' RBT.empty)"
proof -
  have "length ''A B'' < (2::nat) ^ 64" by simp
  then have "IdentifyConnectedSystems_line ''A B'' RBT.empty =
      Inr (insert_connected (line_host ''A B'') (line_system ''A B'') RBT.empty)"
    by (rule IdentifyConnectedSystems_line_short)
  then show ?thesis by (simp add: line_host_def line_system_def)
qed

lemma getlines_A_B: "getlines ''A B'' = [''A B'']"
  by (rule getlines_single) (simp_all add: newline_def)

lemma neighbors_A_B: "neighbors_of (insert_connected ''A'' ''B'' RBT.empty) ''A'' = {''B''}"
  by (simp add: neighbors_of_insert_connected neighbors_of_empty)

lemma edges_A_B: "edges (insert_connected ''A'' ''B'' RBT.empty) = [(''A'', ''B'')]"
proof -
  have "set (edges (insert_connected ''A'' ''B'' RBT.empty)) = {(''A'', ''B'')}"
    by (auto simp: set_edges neighbors_of_insert_connected neighbors_of_empty split: if_splits)
  moreover have "distinct (edges (insert_connected ''A'' ''B'' RBT.empty))"
    by (rule distinct_edges)
  ultimately show ?thesis by (rule distinct_set_singleton)
qed

subsection \<open>Counting ledger lines\<close>

lemma count_list_distinct:
  assumes "distinct xs" and "x \<in> set xs"
  shows "count_list xs x = 1"
  using assms by (induction xs) auto

lemma count_transmission:
  assumes "\<forall>e\<in>set es. CHR '' '' \<notin> set (fst e)" and "CHR '' '' \<notin> set (fst e0)"
  shows "count_list (concat (map edge_writes es)) (''transmission_log.txt'', transmission_line e0) =
           count_list es e0"
  using assms(1)
proof (induction es)
  case Nil
  show ?case by simp
next
  case (Cons e es)
  have "transmission_line e = transmission_line e0 \<longleftrightarrow> e = e0"
    using transmission_line_inj [of "fst e" "snd e" "fst e0" "snd e0"] Cons.prems assms(2)
    by (auto simp: prod_eq_iff transmission_line_def)
  with Cons show ?case by (simp add: edge_writes_def)
qed

lemma count_infection:
  assumes "\<forall>e\<in>set es. CHR '' '' \<notin> set (fst e)" and "CHR '' '' \<notin> set (fst e0)"
  shows "count_list (concat (map edge_writes es)) (''infection_log.txt'', infection_line e0) =
           count_list es e0"
  using assms(1)
proof (induction es)
  case Nil
  show ?case by simp
next
  case (Cons e es)
  have "infection_line e = infection_line e0 \<longleftrightarrow> e = e0"
    using infection_line_inj [of "fst e" "snd e" "fst e0" "snd e0"] Cons.prems assms(2)
    by (auto simp: prod_eq_iff infection_line_def)
  with Cons show ?case by (simp add: edge_writes_def)
qed

lemma filter_edge_writes:
  assumes "''transmission_log.txt'' \<notin> ro" and "''infection_log.txt'' \<notin> ro"
  shows "filter (\<lambda>w. fst w \<notin> ro) (concat (map edge_writes es)) = concat (map edge_writes es)"
  using assms by (induction es) (simp_all add: edge_writes_def)

lemma edges_hosts:
  assumes "IdentifyConnectedSystems_loop lines RBT.empty = Inr cs"
  shows "\<forall>e\<in>set (edges cs). CHR '' '' \<notin> set (fst e)"
proof
  fix e assume "e \<in> set (edges cs)"
  then have "snd e \<in> neighbors_of cs (fst e)" by (auto simp: set_edges)
  then have "fst e \<in> dom (RBT.lookup cs)"
    by (auto simp: neighbors_of_def split: option.splits)
  moreover have "\<forall>h\<in>dom (RBT.lookup cs). CHR '' '' \<notin> set h"
    by (rule IdentifyConnectedSystems_loop_keys [OF assms]) simp
  ultimately show "CHR '' '' \<notin> set (fst e)" by blast
qed

lemma trace_main:
  assumes "main fs ro = Inr (status, s')"
  obtains cs ws lines where "IdentifyConnectedSystems_loop lines RBT.empty = Inr cs"
    and "connected_systems s' = cs"
    and "trace s' = ws @ filter (\<lambda>w. fst w \<notin> ro) (concat (map edge_writes (edges cs)))"
    and "\<forall>w\<in>set ws. fst w = ''stolen_data.txt'' \<or> (snd w \<noteq> [] \<and> last (snd w) \<noteq> newline)"
proof -
  let ?cl = "case fs ''contacts.txt'' of None \<Rightarrow> [] | Some c \<Rightarrow> getlines c"
  obtain cs where l: "IdentifyConnectedSystems_loop
       (case fs ''connected_systems.txt'' of None \<Rightarrow> [] | Some c \<Rightarrow> getlines c)
       RBT.empty = Inr cs"
    and m: "main fs ro =
           Inr (0, Run_propagate (Run_scan ?cl
                    \<lparr>contacts = ?cl, connected_systems = cs, infected_systems = RBT.empty,
                     files = fs, unwritable = ro, trace = []\<rparr>))"
    by (rule main_cases)
  let ?s1 = "\<lparr>contacts = ?cl, connected_systems = cs, infected_systems = RBT.empty,
                     files = fs, unwritable = ro, trace = []\<rparr>"
  from m assms have s': "s' = Run_propagate (Run_scan ?cl ?s1)" by simp
  obtain ws where w1: "trace (Run_scan ?cl ?s1) = trace ?s1 @ ws"
    and w2: "\<forall>w\<in>set ws. fst w = ''stolen_data.txt'' \<or> (snd w \<noteq> [] \<and> last (snd w) \<noteq> newline)"
    using trace_Run_scan_texts by blast
  have g: "globals (Run_scan ?cl ?s1) = globals ?s1" by (rule globals_Run_scan)
  have "connected_systems s' = cs"
    unfolding s' using globalsD(2) [OF globals_main_state, of ?cl ?s1] by simp
  moreover have "trace s' = ws @ filter (\<lambda>w. fst w \<notin> ro) (concat (map edge_writes (edges cs)))"
    unfolding s' trace_Run_propagate using w1 globalsD(2) [OF g] globalsD(4) [OF g] by simp
  ultimately show ?thesis using that l w2 by blast
qed

subsection \<open>The run on a topology of one line\<close>

lemma main_A_B:
  "main [''connected_systems.txt'' \<mapsto> ''A B''] ro =
     Inr (0, Run_propagate
          \<lparr>contacts = [], connected_systems = insert_connected ''A'' ''B'' RBT.empty,
           infected_systems = RBT.empty, files = [''connected_systems.txt'' \<mapsto> ''A B''],
           unwritable = ro, trace = []\<rparr>)"
proof -
  have "IdentifyConnectedSystems_loop
          (case [''connected_systems.txt'' \<mapsto> ''A B''] ''connected_systems.txt'' of
             None \<Rightarrow> [] | Some c \<Rightarrow> getlines c)
          RBT.empty = Inr (insert_connected ''A'' ''B'' RBT.empty)"
    by (simp add: getlines_A_B loop_A_B del: IdentifyConnectedSystems_loop.simps)
  from main_eq [where fs = "[''connected_systems.txt'' \<mapsto> ''A B'']" and ro = ro, OF this]
  show ?thesis by simp
qed

lemma run_A_B:
  "main [''connected_systems.txt'' \<mapsto> ''A B''] ro =
     Inr (0, snd (projr (main [''connected_systems.txt'' \<mapsto> ''A B''] ro)))"
  "connected_systems (snd (projr (main [''connected_systems.txt'' \<mapsto> ''A B''] ro))) =
     insert_connected ''A'' ''B'' RBT.empty"
  "infected_systems (snd (projr (main [''connected_systems.txt'' \<mapsto> ''A B''] ro))) = RBT.empty"
  "trace (snd (projr (main [''connected_systems.txt'' \<mapsto> ''A B''] ro))) =
     filter (\<lambda>w. fst w \<notin> ro) (edge_writes (''A'', ''B''))"
proof -
  let ?s1 = "\<lparr>contacts = [], connected_systems = insert_connected ''A'' ''B'' RBT.empty,
           infected_systems = RBT.empty, files = [''connected_systems.txt'' \<mapsto> ''A B''],
           unwritable = ro, trace = []\<rparr>"
  have m: "snd (projr (main [''connected_systems.txt'' \<mapsto> ''A B''] ro)) = Run_propagate ?s1"
    by (simp add: main_A_B)
  have g: "globals (Run_propagate ?s1) = globals ?s1" by (rule globals_Run_propagate)
  show "main [''connected_systems.txt'' \<mapsto> ''A B''] ro =
     Inr (0, snd (projr (main [''connected_systems.txt'' \<mapsto> ''A B''] ro)))"
    by (simp add: main_A_B)
  show "connected_systems (snd (projr (main [''connected_systems.txt'' \<mapsto> ''A B''] ro))) =
     insert_connected ''A'' ''B'' RBT.empty"
    unfolding m using globalsD(2) [OF g] by simp
  show "infected_systems (snd (projr (main [''connected_systems.txt'' \<mapsto> ''A B''] ro))) = RBT.empty"
    unfolding m using globalsD(3) [OF g] by simp
  show "trace (snd (projr (main [''connected_systems.txt'' \<mapsto> ''A B''] ro))) =
     filter (\<lambda>w. fst w \<notin> ro) (edge_writes (''A'', ''B''))"
    unfolding m trace_Run_propagate by (simp add: edges_A_B)
qed

subsection \<open>Lines and their fields\<close>

lemma IdentifyConnectedSystems_loop_append:
  "IdentifyConnectedSystems_loop (xs @ ys) cs =
     (case IdentifyConnectedSystems_loop xs cs of
        Inl e \<Rightarrow> Inl e
      | Inr cs1 \<Rightarrow> IdentifyConnectedSystems_loop ys cs1)"
  by (induction xs arbitrary: cs) (simp_all split: sum.splits)

lemma line_fields:
  assumes "CHR '' '' \<in> set line"
  shows "line = line_host line @ '' '' @ line_system line"
proof -
  let ?P = "\<lambda>c. c \<noteq> CHR '' ''"
  from assms have "dropWhile ?P line \<noteq> []" by (auto simp: dropWhile_eq_Nil_conv)
  moreover have "\<not> ?P (hd (dropWhile ?P line))" if "dropWhile ?P line \<noteq> []"
    using that by (rule hd_dropWhile)
  ultimately have d: "dropWhile ?P line = CHR '' '' # drop 1 (dropWhile ?P line)"
    by (cases "dropWhile ?P line") auto
  have "takeWhile ?P line @ dropWhile ?P line = line" by (rule takeWhile_dropWhile_id)
  then have "line = takeWhile ?P line @ CHR '' '' # drop 1 (dropWhile ?P line)"
    using d by metis
  with assms show ?thesis by (simp only: line_host_def line_system_def if_True append_Cons append_Nil)
qed

lemma line_host_no_space: "CHR '' '' \<notin> set (line_host line)"
  by (auto simp: line_host_def dest: set_takeWhileD)

lemma line_host_append:
  assumes "CHR '' '' \<notin> set host"
  shows "line_host (host @ '' '' @ neighbor) = host"
  using takeWhile_field [OF assms, of neighbor] by (simp add: line_host_def)

lemma line_system_append:
  assumes "CHR '' '' \<notin> set host"
  shows "line_system (host @ '' '' @ neighbor) = neighbor"
proof -
  from assms have "dropWhile (\<lambda>c. c \<noteq> CHR '' '') (host @ CHR '' '' # neighbor) = CHR '' '' # neighbor"
    by (induction host) auto
  then show ?thesis by (simp add: line_system_def)
qed

lemma fields_of_host:
  assumes "\<forall>line\<in>set lines. CHR '' '' \<in> set line" and "CHR '' '' \<notin> set host"
  shows "{line_system l | l. l \<in> set lines \<and> line_host l = host} =
           {neighbor. host @ '' '' @ neighbor \<in> set lines}"
proof (intro set_eqI iffI)
  fix n assume "n \<in> {line_system l | l. l \<in> set lines \<and> line_host l = host}"
  then obtain l where l: "l \<in> set lines" and n: "n = line_system l" and h: "line_host l = host"
    by blast
  from assms(1) l have "l = line_host l @ '' '' @ line_system l" by (intro line_fields) blast
  with l n h show "n \<in> {neighbor. host @ '' '' @ neighbor \<in> set lines}" by simp
next
  fix n assume "n \<in> {neighbor. host @ '' '' @ neighbor \<in> set lines}"
  then have "host @ '' '' @ n \<in> set lines" by simp
  moreover have "line_system (host @ '' '' @ n) = n" by (rule line_system_append [OF assms(2)])
  moreover have "line_host (host @ '' '' @ n) = host" by (rule line_host_append [OF assms(2)])
  ultimately have "\<exists>l. n = line_system l \<and> l \<in> set lines \<and> line_host l = host"
    by (intro exI [of _ "host @ '' '' @ n"]) simp
  then show "n \<in> {line_system l | l. l \<in> set lines \<and> line_host l = host}" by simp
qed

lemma main_Run: "main fs ro = Inr (status, s') \<Longrightarrow> Run (initial fs ro) = Inr s'"
  by (simp add: main_def split: sum.splits)

subsection \<open>Sample topologies and the whole initialisation\<close>

lemma build_abc:
  "IdentifyConnectedSystems (initial [''connected_systems.txt'' \<mapsto> ''abc''] {}) =
     Inr ((initial [''connected_systems.txt'' \<mapsto> ''abc''] {})
            \<lparr>connected_systems := insert_connected ''abc'' ''abc'' RBT.empty\<rparr>)"
proof -
  have g: "getlines ''abc'' = [''abc'']"
    by (rule getlines_single) (simp_all add: newline_def)
  have "length ''abc'' < (2::nat) ^ 64" by simp
  then have "IdentifyConnectedSystems_line ''abc'' RBT.empty =
      Inr (insert_connected (line_host ''abc'') (line_system ''abc'') RBT.empty)"
    by (rule IdentifyConnectedSystems_line_short)
  then have "IdentifyConnectedSystems_line ''abc'' RBT.empty =
      Inr (insert_connected ''abc'' ''abc'' RBT.empty)"
    by (simp add: line_host_def line_system_def)
  then show ?thesis
    by (simp add: IdentifyConnectedSystems_def ifstream_lines_def initial_def g)
qed

lemma getlines_sample:
  "getlines (''A B'' @ [newline] @ ''A C'' @ [newline] @ ''A B'') = [''A B'', ''A C'', ''A B'']"
proof -
  have "getlines (''A B'' @ newline # (''A C'' @ newline # ''A B'')) =
      ''A B'' # getlines (''A C'' @ newline # ''A B'')"
    by (rule getlines_line) (simp add: newline_def)
  moreover have "getlines (''A C'' @ newline # ''A B'') = ''A C'' # getlines ''A B''"
    by (rule getlines_line) (simp add: newline_def)
  ultimately show ?thesis by (simp add: getlines_A_B)
qed

lemma Initialize_topology:
  assumes "Initialize (initial fs ro) = Inr s' \<or> Run (initial fs ro) = Inr s'"
  shows "\<exists>lines. IdentifyConnectedSystems_loop lines RBT.empty = Inr (connected_systems s')"
proof -
  let ?s = "initial fs ro"
  obtain cs where l: "IdentifyConnectedSystems_loop (ifstream_lines ?s ''connected_systems.txt'')
           (connected_systems ?s) = Inr cs"
    and i: "Initialize ?s = Inr (?s\<lparr>contacts := contacts ?s @ ifstream_lines ?s ''contacts.txt'',
                               connected_systems := cs\<rparr>)"
    using Initialize_eq by blast
  let ?s1 = "?s\<lparr>contacts := contacts ?s @ ifstream_lines ?s ''contacts.txt'',
                               connected_systems := cs\<rparr>"
  from assms have "connected_systems s' = cs"
  proof
    assume "Initialize ?s = Inr s'"
    with i show ?thesis by simp
  next
    assume "Run ?s = Inr s'"
    with i have "s' = Run_propagate (Run_scan (contacts ?s1) ?s1)" by (simp add: Run_def)
    then show ?thesis using globalsD(2) [OF globals_main_state, of "contacts ?s1" ?s1] by simp
  qed
  moreover have "connected_systems ?s = RBT.empty" by (simp add: initial_def)
  ultimately show ?thesis using l by auto
qed

lemma Initialize_sample:
  "Initialize (initial [''contacts.txt'' \<mapsto> ''x'', ''connected_systems.txt'' \<mapsto> ''A B''] {}) =
     Inr \<lparr>contacts = [''x''], connected_systems = insert_connected ''A'' ''B'' RBT.empty,
          infected_systems = RBT.empty,
          files = [''contacts.txt'' \<mapsto> ''x'', ''connected_systems.txt'' \<mapsto> ''A B''],
          unwritable = {}, trace = []\<rparr>"
proof -
  have "getlines ''x'' = [''x'']" by (rule getlines_single) (simp_all add: newline_def)
  then show ?thesis
    by (simp add: Initialize_def IdentifyConnectedSystems_def Initialize_loop_eq
        ifstream_lines_def initial_def getlines_A_B loop_A_B
        del: IdentifyConnectedSystems_loop.simps)
qed

subsection \<open>The payload in a run\<close>




lemma files_Run_propagate_unwritable:
  assumes "name = [] \<or> name \<in> unwritable s"
  shows "files (Run_propagate s) name = files s name"
proof -
  have step: "files (SendPrompt host system s) name = files s name"
    if "name = [] \<or> name \<in> unwritable s" for host system s
    using that
    by (auto simp: SendPrompt_def LogInfection_def LogTransmission_def ofstream_open_app_def
        stream_put_def)
  have "files (fold (\<lambda>e. SendPrompt (fst e) (snd e)) es s) name = files s name" for es
    using assms
  proof (induction es arbitrary: s)
    case Nil
    show ?case by simp
  next
    case (Cons e es)
    have "unwritable (SendPrompt (fst e) (snd e) s) = unwritable s"
      by (rule globalsD(4) [OF globals_SendPrompt])
    with Cons.prems have "name = [] \<or> name \<in> unwritable (SendPrompt (fst e) (snd e) s)"
      by simp
    then have "files (fold (\<lambda>e. SendPrompt (fst e) (snd e)) es (SendPrompt (fst e) (snd e) s)) name =
        files (SendPrompt (fst e) (snd e) s) name"
      by (rule Cons.IH)
    with step [OF Cons.prems] show ?case by simp
  qed
  then show ?thesis by (simp add: Run_propagate_fold)
qed

lemma files_Run_scan_unwritable:
  assumes "name = [] \<or> name \<in> unwritable s"
  shows "files (Run_scan es s) name = files s name"
  using assms
proof (induction es arbitrary: s)
  case Nil
  show ?case by simp
next
  case (Cons e es)
  show ?case
  proof (cases "IsAdversarialPrompt e")
    case True
    let ?s1 = "ProcessAdversarialPrompt e s"
    have "unwritable ?s1 = unwritable s"
      by (rule globalsD(4) [OF globals_ProcessAdversarialPrompt])
    with Cons.prems have "name = [] \<or> name \<in> unwritable ?s1" by simp
    then have "files (Run_scan es ?s1) name = files ?s1 name" by (rule Cons.IH)
    moreover have "files ?s1 name = files s name"
      by (rule files_ProcessAdversarialPrompt_unwritable [OF Cons.prems])
    ultimately show ?thesis using True by simp
  next
    case False
    with Cons.IH [OF Cons.prems] show ?thesis by simp
  qed
qed


lemma main_projr: "main fs ro = Inr (0, snd (projr (main fs ro)))"
proof -
  obtain s' where "main fs ro = Inr (0, s')" using main_exits_0 by blast
  then show ?thesis by simp
qed

subsection \<open>The run on a single triggering contact\<close>

lemma trigger_keyword: "IsAdversarialPrompt ''adversarial_keyword''"
proof -
  have "length ''adversarial_keyword'' < (2::nat) ^ 64" by simp
  then show ?thesis by (simp add: IsAdversarialPrompt_iff)
qed

lemma main_keyword:
  "main [''contacts.txt'' \<mapsto> ''adversarial_keyword''] ro =
     Inr (0, ProcessAdversarialPrompt ''adversarial_keyword''
          \<lparr>contacts = [''adversarial_keyword''], connected_systems = RBT.empty,
           infected_systems = RBT.empty, files = [''contacts.txt'' \<mapsto> ''adversarial_keyword''],
           unwritable = ro, trace = []\<rparr>)"
proof -
  let ?s1 = "\<lparr>contacts = [''adversarial_keyword''], connected_systems = RBT.empty,
           infected_systems = RBT.empty, files = [''contacts.txt'' \<mapsto> ''adversarial_keyword''],
           unwritable = ro, trace = []\<rparr>"
  have g: "getlines ''adversarial_keyword'' = [''adversarial_keyword'']"
    by (rule getlines_single) (simp_all add: newline_def)
  have "IdentifyConnectedSystems_loop
          (case [''contacts.txt'' \<mapsto> ''adversarial_keyword''] ''connected_systems.txt'' of
             None \<Rightarrow> [] | Some c \<Rightarrow> getlines c)
          RBT.empty = Inr RBT.empty"
    by simp
  from main_eq [where fs = "[''contacts.txt'' \<mapsto> ''adversarial_keyword'']" and ro = ro, OF this]
  have "main [''contacts.txt'' \<mapsto> ''adversarial_keyword''] ro =
      Inr (0, Run_propagate (ProcessAdversarialPrompt ''adversarial_keyword'' ?s1))"
    by (simp add: g trigger_keyword)
  moreover have "connected_systems (ProcessAdversarialPrompt ''adversarial_keyword'' ?s1) = RBT.empty"
    using globalsD(2) [OF globals_ProcessAdversarialPrompt, of "''adversarial_keyword''" ?s1]
    by simp
  ultimately show ?thesis by (simp add: Run_propagate_empty)
qed

subsection \<open>The state when \<^verbatim>\<open>main\<close> returns\<close>

lemma main_state:
  assumes "main fs ro = Inr (status, s')"
  obtains cs where
    "s' = Run_propagate (Run_scan (case fs ''contacts.txt'' of None \<Rightarrow> [] | Some c \<Rightarrow> getlines c)
            \<lparr>contacts = (case fs ''contacts.txt'' of None \<Rightarrow> [] | Some c \<Rightarrow> getlines c),
             connected_systems = cs, infected_systems = RBT.empty,
             files = fs, unwritable = ro, trace = []\<rparr>)"
    and "contacts s' = (case fs ''contacts.txt'' of None \<Rightarrow> [] | Some c \<Rightarrow> getlines c)"
    and "connected_systems s' = cs"
proof -
  let ?cl = "case fs ''contacts.txt'' of None \<Rightarrow> [] | Some c \<Rightarrow> getlines c"
  obtain cs where m: "main fs ro =
           Inr (0, Run_propagate (Run_scan ?cl
                    \<lparr>contacts = ?cl, connected_systems = cs, infected_systems = RBT.empty,
                     files = fs, unwritable = ro, trace = []\<rparr>))"
    by (rule main_cases)
  let ?s1 = "\<lparr>contacts = ?cl, connected_systems = cs, infected_systems = RBT.empty,
                     files = fs, unwritable = ro, trace = []\<rparr>"
  from m assms have s': "s' = Run_propagate (Run_scan ?cl ?s1)" by simp
  have g: "globals (Run_propagate (Run_scan ?cl ?s1)) = globals ?s1" by (rule globals_main_state)
  have "contacts s' = ?cl" unfolding s' using globalsD(1) [OF g] by simp
  moreover have "connected_systems s' = cs" unfolding s' using globalsD(2) [OF g] by simp
  ultimately show ?thesis using that s' by blast
qed

lemma spam_write_mem:
  assumes "contact \<in> set cs" and "can_open ro (contact @ ''_spam_email.txt'')"
  shows "(c_str (contact @ ''_spam_email.txt''), ''This is a spam email.'') \<in>
           set (payload_writes ro cs (email, ls))"
  using assms by (simp add: payload_writes_def spam_writes_def image_iff) blast

lemma replicated_write_mem:
  assumes "contact \<in> set cs" and "can_open ro (contact @ ''_replicated_email.txt'')"
  shows "(c_str (contact @ ''_replicated_email.txt''), email @ '' replicated_prompt'') \<in>
           set (payload_writes ro cs (email, ls))"
  using assms by (simp add: payload_writes_def replicated_writes_def image_iff) blast

lemma getlines_two_contacts:
  "getlines (''x_adversarial_keyword'' @ [newline] @ ''z'' @ [CHR 0x00] @ ''q'') =
     [''x_adversarial_keyword'', ''z'' @ [CHR 0x00] @ ''q'']"
proof -
  have "getlines (''x_adversarial_keyword'' @ newline # (''z'' @ [CHR 0x00] @ ''q'')) =
      ''x_adversarial_keyword'' # getlines (''z'' @ [CHR 0x00] @ ''q'')"
    by (rule getlines_line) (simp add: newline_def)
  moreover have "getlines (''z'' @ [CHR 0x00] @ ''q'') = [''z'' @ [CHR 0x00] @ ''q'']"
    by (rule getlines_single) (simp_all add: newline_def)
  ultimately show ?thesis by simp
qed

lemma trigger_x: "IsAdversarialPrompt ''x_adversarial_keyword''"
proof -
  have "length ''x_adversarial_keyword'' < (2::nat) ^ 64" by simp
  moreover have "sublist ''adversarial_keyword'' (''x_'' @ ''adversarial_keyword'' @ [])"
    by (rule sublist_appendI)
  ultimately show ?thesis by (simp add: IsAdversarialPrompt_iff)
qed

section \<open>The properties of the specification\<close>

subsection \<open>Building the topology\<close>

text \<open>
  Claim C3, as amended. For every line of \<^verbatim>\<open>connected_systems.txt\<close> that contains no space,
  \<^verbatim>\<open>IdentifyConnectedSystems\<close> records the whole line as the host and the whole line again
  as that host's neighbor: \<^verbatim>\<open>find\<close> returns \<^verbatim>\<open>npos\<close>, \<^verbatim>\<open>npos + 1\<close> wraps to 0, and
  \<^verbatim>\<open>substr(0)\<close> is the line. After the build the host is a key of the map and its set contains
  the line itself.
\<close>

theorem line_without_space:
  assumes "files s ''connected_systems.txt'' = Some content"
    and "line \<in> set (getlines content)"
    and "CHR '' '' \<notin> set line" and "length line < 2 ^ 64"
  shows "\<exists>s'. IdentifyConnectedSystems s = Inr s' \<and>
           RBT.lookup (connected_systems s') line \<noteq> None \<and>
           line \<in> neighbors_of (connected_systems s') line"
proof -
  from assms(2) obtain xs ys where sp: "getlines content = xs @ line # ys"
    by (auto dest: split_list)
  obtain c1 where c1: "IdentifyConnectedSystems_loop xs (connected_systems s) = Inr c1"
    using IdentifyConnectedSystems_loop_any by blast
  from assms(3) have "line_host line = line" "line_system line = line"
    by (auto simp: line_host_def line_system_def takeWhile_eq_all_conv)
  with IdentifyConnectedSystems_line_short [OF assms(4), of c1]
  have step: "IdentifyConnectedSystems_line line c1 = Inr (insert_connected line line c1)"
    by simp
  obtain c2 where c2: "IdentifyConnectedSystems_loop ys (insert_connected line line c1) = Inr c2"
    using IdentifyConnectedSystems_loop_any by blast
  have "IdentifyConnectedSystems_loop (getlines content) (connected_systems s) = Inr c2"
    by (simp add: sp IdentifyConnectedSystems_loop_append c1 step c2)
  with assms(1) have r: "IdentifyConnectedSystems s = Inr (s\<lparr>connected_systems := c2\<rparr>)"
    by (simp add: IdentifyConnectedSystems_def ifstream_lines_def)
  have "neighbors_of (insert_connected line line c1) line \<subseteq> neighbors_of c2 line"
    by (rule neighbors_of_mono [OF c2])
  then have m: "line \<in> neighbors_of c2 line"
    by (auto simp: neighbors_of_insert_connected)
  then have "RBT.lookup c2 line \<noteq> None"
    by (auto simp: neighbors_of_def split: option.splits)
  with r m show ?thesis by simp
qed

text \<open>The file whose only line is \<^verbatim>\<open>abc\<close>.\<close>

theorem line_without_space_witness:
  "\<exists>s'. IdentifyConnectedSystems (initial [''connected_systems.txt'' \<mapsto> ''abc''] {}) = Inr s' \<and>
      RBT.lookup (connected_systems s') ''abc'' \<noteq> None \<and>
      ''abc'' \<in> neighbors_of (connected_systems s') ''abc''"
proof -
  have 1: "files (initial [''connected_systems.txt'' \<mapsto> ''abc''] {}) ''connected_systems.txt'' =
      Some ''abc''"
    by (simp add: initial_def)
  have 2: "''abc'' \<in> set (getlines ''abc'')"
    by (simp add: getlines_single newline_def)
  have 3: "CHR '' '' \<notin> set ''abc''" by simp
  have 4: "length ''abc'' < (2::nat) ^ 64" by simp
  from line_without_space [OF 1 2 3 4] show ?thesis .
qed

text \<open>
  Claim C3 as stated fails: from the file whose only line is \<^verbatim>\<open>abc\<close>, the set recorded for
  the host \<^verbatim>\<open>abc\<close> is \<open>{abc}\<close>, and the empty string is not in it.
\<close>

theorem empty_neighbor_counterexample:
  "''abc'' \<in> set (getlines ''abc'') \<and> CHR '' '' \<notin> set ''abc'' \<and>
   neighbors_of (connected_systems (projr (IdentifyConnectedSystems
      (initial [''connected_systems.txt'' \<mapsto> ''abc''] {})))) ''abc'' = {''abc''} \<and>
   [] \<notin> neighbors_of (connected_systems (projr (IdentifyConnectedSystems
      (initial [''connected_systems.txt'' \<mapsto> ''abc''] {})))) ''abc''"
  by (simp add: build_abc neighbors_of_insert_connected neighbors_of_empty getlines_single
      newline_def)

text \<open>
  Claim C7. When every line of \<^verbatim>\<open>connected_systems.txt\<close> contains a space, so that it reads
  \<^verbatim>\<open>host neighbor\<close> with the host ending at the first space (and is shorter than \<open>2 ^ 64\<close>,
  as every \<^verbatim>\<open>std::string\<close> is), the build from the empty map stores under each host exactly
  the neighbors that the lines give for it; a string that is the host of no line is no key
  of the map and has no neighbors; and each stored set lists its elements once, however
  often a line is repeated.
\<close>

theorem topology_of_well_formed_lines:
  assumes "files s ''connected_systems.txt'' = Some content"
    and "connected_systems s = RBT.empty"
    and "\<forall>line\<in>set (getlines content). CHR '' '' \<in> set line \<and> length line < 2 ^ 64"
  shows "\<exists>s'. IdentifyConnectedSystems s = Inr s' \<and>
           (\<forall>host. CHR '' '' \<notin> set host \<longrightarrow>
              neighbors_of (connected_systems s') host =
                {neighbor. host @ '' '' @ neighbor \<in> set (getlines content)}) \<and>
           (\<forall>host. CHR '' '' \<in> set host \<or>
                   (\<forall>neighbor. host @ '' '' @ neighbor \<notin> set (getlines content)) \<longrightarrow>
              RBT.lookup (connected_systems s') host = None \<and>
              neighbors_of (connected_systems s') host = {}) \<and>
           (\<forall>host systems. RBT.lookup (connected_systems s') host = Some systems \<longrightarrow>
              distinct (RBT.keys systems) \<and>
              set (RBT.keys systems) = neighbors_of (connected_systems s') host)"
proof -
  let ?lines = "getlines content"
  let ?cs = "fold (\<lambda>l. insert_connected (line_host l) (line_system l)) ?lines RBT.empty"
  from assms(3) have short: "\<forall>l\<in>set ?lines. length l < 2 ^ 64"
    and sp: "\<forall>l\<in>set ?lines. CHR '' '' \<in> set l"
    by blast+
  have "IdentifyConnectedSystems_loop ?lines RBT.empty = Inr ?cs"
    by (rule IdentifyConnectedSystems_loop_short [OF short])
  with assms(1,2) have r: "IdentifyConnectedSystems s = Inr (s\<lparr>connected_systems := ?cs\<rparr>)"
    by (simp add: IdentifyConnectedSystems_def ifstream_lines_def)
  have nb: "neighbors_of ?cs host = {line_system l | l. l \<in> set ?lines \<and> line_host l = host}"
    for host
    by (simp add: neighbors_of_fold neighbors_of_empty)
  have dm: "dom (RBT.lookup ?cs) = line_host ` set ?lines"
    by (simp add: dom_lookup_fold)
  have a: "neighbors_of ?cs host = {neighbor. host @ '' '' @ neighbor \<in> set ?lines}"
    if "CHR '' '' \<notin> set host" for host
    unfolding nb by (rule fields_of_host [OF sp that])
  have b: "RBT.lookup ?cs host = None \<and> neighbors_of ?cs host = {}"
    if h: "CHR '' '' \<in> set host \<or> (\<forall>neighbor. host @ '' '' @ neighbor \<notin> set ?lines)" for host
  proof -
    have "host \<notin> line_host ` set ?lines"
    proof
      assume "host \<in> line_host ` set ?lines"
      then obtain l where l: "l \<in> set ?lines" and hl: "host = line_host l" by blast
      from sp l have "l = line_host l @ '' '' @ line_system l" by (intro line_fields) blast
      with l hl have "host @ '' '' @ line_system l \<in> set ?lines" by simp
      moreover from hl have "CHR '' '' \<notin> set host" by (simp add: line_host_no_space)
      ultimately show False using h by blast
    qed
    with dm have "RBT.lookup ?cs host = None" by blast
    then show ?thesis by (simp add: neighbors_of_def)
  qed
  have c: "distinct (RBT.keys systems) \<and> set (RBT.keys systems) = neighbors_of ?cs host"
    if "RBT.lookup ?cs host = Some systems" for host systems
    using that by (simp add: neighbors_of_def)
  from r a b c show ?thesis by simp
qed

text \<open>Three lines, the third repeating the first: \<^verbatim>\<open>A B\<close>, \<^verbatim>\<open>A C\<close>, \<^verbatim>\<open>A B\<close>.\<close>

theorem topology_of_well_formed_lines_witness:
  "\<exists>s'. IdentifyConnectedSystems
          (initial [''connected_systems.txt'' \<mapsto>
             ''A B'' @ [newline] @ ''A C'' @ [newline] @ ''A B''] {}) = Inr s' \<and>
      neighbors_of (connected_systems s') ''A'' = {''B'', ''C''} \<and>
      RBT.lookup (connected_systems s') ''B'' = None"
proof -
  let ?content = "''A B'' @ [newline] @ ''A C'' @ [newline] @ ''A B''"
  let ?s = "initial [''connected_systems.txt'' \<mapsto> ?content] {}"
  have 1: "files ?s ''connected_systems.txt'' = Some ?content" by (simp add: initial_def)
  have 2: "connected_systems ?s = RBT.empty" by (simp add: initial_def)
  have 3: "\<forall>line\<in>set (getlines ?content). CHR '' '' \<in> set line \<and> length line < 2 ^ 64"
    unfolding getlines_sample by simp
  from topology_of_well_formed_lines [OF 1 2 3, unfolded getlines_sample]
  obtain s' where r: "IdentifyConnectedSystems ?s = Inr s'"
    and a: "\<forall>host. CHR '' '' \<notin> set host \<longrightarrow>
              neighbors_of (connected_systems s') host =
                {neighbor. host @ '' '' @ neighbor \<in> set [''A B'', ''A C'', ''A B'']}"
    and b: "\<forall>host. CHR '' '' \<in> set host \<or>
                   (\<forall>neighbor. host @ '' '' @ neighbor \<notin> set [''A B'', ''A C'', ''A B'']) \<longrightarrow>
              RBT.lookup (connected_systems s') host = None \<and>
              neighbors_of (connected_systems s') host = {}"
    by blast
  from a have "neighbors_of (connected_systems s') ''A'' =
      {neighbor. ''A'' @ '' '' @ neighbor \<in> set [''A B'', ''A C'', ''A B'']}"
    by simp
  then have "neighbors_of (connected_systems s') ''A'' = {''B'', ''C''}"
    by auto
  moreover from b have "RBT.lookup (connected_systems s') ''B'' = None"
    by simp
  ultimately show ?thesis using r by blast
qed

text \<open>
  Claim C8. After the build, that is when \<^verbatim>\<open>Initialize\<close> returns and from then on until
  \<^verbatim>\<open>Run\<close> returns, every key of the map has a non-empty set: a host is never present with
  no neighbor.
\<close>

theorem hosts_have_neighbors:
  assumes "Initialize (initial fs ro) = Inr s' \<or> Run (initial fs ro) = Inr s'"
    and "RBT.lookup (connected_systems s') host = Some systems"
  shows "RBT.keys systems \<noteq> [] \<and> neighbors_of (connected_systems s') host \<noteq> {}"
proof -
  obtain lines where "IdentifyConnectedSystems_loop lines RBT.empty = Inr (connected_systems s')"
    using Initialize_topology [OF assms(1)] by blast
  then have "\<forall>h\<in>dom (RBT.lookup (connected_systems s')).
      neighbors_of (connected_systems s') h \<noteq> {}"
    by (rule IdentifyConnectedSystems_loop_nonempty) simp
  with assms(2) have "neighbors_of (connected_systems s') host \<noteq> {}" by blast
  with assms(2) show ?thesis by (simp add: neighbors_of_def)
qed

text \<open>The run on the topology \<^verbatim>\<open>A B\<close>: the key \<^verbatim>\<open>A\<close> holds the set with \<^verbatim>\<open>B\<close>.\<close>

theorem hosts_have_neighbors_witness:
  "RBT.lookup (connected_systems (snd (projr (main [''connected_systems.txt'' \<mapsto> ''A B''] {}))))
     ''A'' = Some (RBT.insert ''B'' () RBT.empty) \<and>
   RBT.keys (RBT.insert ''B'' () RBT.empty :: string_set) \<noteq> [] \<and>
   neighbors_of (connected_systems (snd (projr (main [''connected_systems.txt'' \<mapsto> ''A B''] {}))))
     ''A'' \<noteq> {}"
proof -
  let ?s' = "snd (projr (main [''connected_systems.txt'' \<mapsto> ''A B''] {}))"
  have "Run (initial [''connected_systems.txt'' \<mapsto> ''A B''] {}) = Inr ?s'"
    by (rule main_Run [OF run_A_B(1)])
  then have 1: "Initialize (initial [''connected_systems.txt'' \<mapsto> ''A B''] {}) = Inr ?s' \<or>
      Run (initial [''connected_systems.txt'' \<mapsto> ''A B''] {}) = Inr ?s'"
    by (rule disjI2)
  have 2: "RBT.lookup (connected_systems ?s') ''A'' = Some (RBT.insert ''B'' () RBT.empty)"
    by (simp add: run_A_B(2) lookup_insert_connected)
  from hosts_have_neighbors [OF 1 2] 2 show ?thesis by simp
qed

subsection \<open>The trigger classifier\<close>

text \<open>
  Claim C4. \<^verbatim>\<open>IsAdversarialPrompt\<close> is a function of its argument alone, and for every
  string (a \<^verbatim>\<open>std::string\<close> is shorter than \<open>2 ^ 64\<close>) it is true exactly when the string
  contains \<^verbatim>\<open>adversarial_keyword\<close>, byte for byte, as a contiguous substring at some
  position.
\<close>

theorem IsAdversarialPrompt_substring:
  assumes "length email < 2 ^ 64"
  shows "IsAdversarialPrompt email \<longleftrightarrow>
           (\<exists>before after. email = before @ ''adversarial_keyword'' @ after)"
  using IsAdversarialPrompt_iff [OF assms] by (simp add: sublist_def)

text \<open>A string that contains the marker, and one that contains it only in upper case.\<close>

theorem IsAdversarialPrompt_substring_witness:
  "IsAdversarialPrompt ''x_adversarial_keyword'' \<and> \<not> IsAdversarialPrompt ''ADVERSARIAL_KEYWORD''"
proof -
  have len: "length ''x_adversarial_keyword'' < (2::nat) ^ 64" by simp
  have "''x_adversarial_keyword'' = ''x_'' @ ''adversarial_keyword'' @ []" by simp
  then have "\<exists>before after. ''x_adversarial_keyword'' = before @ ''adversarial_keyword'' @ after"
    by (intro exI)
  with IsAdversarialPrompt_substring [OF len] have yes: "IsAdversarialPrompt ''x_adversarial_keyword''"
    by simp
  have len': "length ''ADVERSARIAL_KEYWORD'' < (2::nat) ^ 64" by simp
  have "\<not> (\<exists>before after. ''ADVERSARIAL_KEYWORD'' = before @ ''adversarial_keyword'' @ after)"
  proof
    assume "\<exists>before after. ''ADVERSARIAL_KEYWORD'' = before @ ''adversarial_keyword'' @ after"
    then obtain before after where e: "''ADVERSARIAL_KEYWORD'' = before @ ''adversarial_keyword'' @ after"
      by (elim exE)
    then have "length ''ADVERSARIAL_KEYWORD'' = length (before @ ''adversarial_keyword'' @ after)"
      by (rule arg_cong)
    then have "before = []" by simp
    with e show False by simp
  qed
  with IsAdversarialPrompt_substring [OF len'] have "\<not> IsAdversarialPrompt ''ADVERSARIAL_KEYWORD''"
    by simp
  with yes show ?thesis by (rule conjI)
qed

subsection \<open>The payload\<close>

text \<open>
  Claim C6, as amended. In every run, the loop over the loaded contacts runs the payload
  once for every contact that \<^verbatim>\<open>IsAdversarialPrompt\<close> accepts, in order, each time with that
  contact as the message and with the whole of \<^verbatim>\<open>contacts\<close>: the writes of the run before
  the ledger lines are, for each such contact in turn, the lines copied by \<^verbatim>\<open>StealData\<close>,
  then for every contact of the sequence whose sink \<^verbatim>\<open><contact>_spam_email.txt\<close> opens
  the text \<^verbatim>\<open>This is a spam email.\<close>, then for every contact of the sequence whose sink
  \<^verbatim>\<open><contact>_replicated_email.txt\<close> opens the message followed by
  \<^verbatim>\<open> replicated_prompt\<close>. A sink is opened under its name cut at the first NUL byte. So
  for every triggering contact and every contact whose sink opens, both texts are written,
  to every contact and not to the triggering one alone. A sink that cannot be opened is
  skipped: no write of the run goes to a name that cannot be opened, and the files under
  such names are at the end what they were at the start.
\<close>

theorem payload_reaches_every_contact:
  assumes "main fs ro = Inr (status, s')"
  shows "contacts s' = (case fs ''contacts.txt'' of None \<Rightarrow> [] | Some c \<Rightarrow> getlines c) \<and>
         (\<exists>steals. length steals = length (filter IsAdversarialPrompt (contacts s')) \<and>
            trace s' =
              concat (map (payload_writes ro (contacts s'))
                        (zip (filter IsAdversarialPrompt (contacts s')) steals)) @
              filter (\<lambda>w. fst w \<notin> ro) (concat (map edge_writes (edges (connected_systems s'))))) \<and>
         (\<forall>email\<in>set (contacts s'). \<forall>contact\<in>set (contacts s'). IsAdversarialPrompt email \<longrightarrow>
            (can_open ro (contact @ ''_spam_email.txt'') \<longrightarrow>
               (c_str (contact @ ''_spam_email.txt''), ''This is a spam email.'') \<in> set (trace s')) \<and>
            (can_open ro (contact @ ''_replicated_email.txt'') \<longrightarrow>
               (c_str (contact @ ''_replicated_email.txt''), email @ '' replicated_prompt'')
                 \<in> set (trace s'))) \<and>
         (\<forall>w\<in>set (trace s'). fst w \<noteq> [] \<and> fst w \<notin> ro) \<and>
         (\<forall>name. name = [] \<or> name \<in> ro \<longrightarrow> files s' name = fs name)"
proof -
  let ?cl = "case fs ''contacts.txt'' of None \<Rightarrow> [] | Some c \<Rightarrow> getlines c"
  obtain cs where s': "s' = Run_propagate (Run_scan ?cl
            \<lparr>contacts = ?cl, connected_systems = cs, infected_systems = RBT.empty,
             files = fs, unwritable = ro, trace = []\<rparr>)"
    and c: "contacts s' = ?cl" and t: "connected_systems s' = cs"
    by (rule main_state [OF assms])
  let ?s1 = "\<lparr>contacts = ?cl, connected_systems = cs, infected_systems = RBT.empty,
             files = fs, unwritable = ro, trace = []\<rparr>"
  let ?tr = "filter IsAdversarialPrompt ?cl"
  let ?led = "filter (\<lambda>w. fst w \<notin> ro) (concat (map edge_writes (edges cs)))"
  have g: "globals (Run_scan ?cl ?s1) = globals ?s1" by (rule globals_Run_scan)
  obtain steals where len: "length steals = length ?tr"
    and emp: "''stolen_data.txt'' \<in> ro \<longrightarrow> (\<forall>ls\<in>set steals. ls = [])"
    and sc: "trace (Run_scan ?cl ?s1) =
       trace ?s1 @ concat (map (payload_writes (unwritable ?s1) (contacts ?s1)) (zip ?tr steals))"
    using trace_Run_scan [of ?cl ?s1] by auto
  have tr: "trace s' = concat (map (payload_writes ro ?cl) (zip ?tr steals)) @ ?led"
    unfolding s' trace_Run_propagate sc using globalsD(2) [OF g] globalsD(4) [OF g] by simp
  have mem: "(c_str (contact @ ''_spam_email.txt''), ''This is a spam email.'') \<in> set (trace s')"
    if "email \<in> set ?cl" "contact \<in> set ?cl" "IsAdversarialPrompt email"
      "can_open ro (contact @ ''_spam_email.txt'')" for email contact
  proof -
    from that(1,3) have "email \<in> set ?tr" by simp
    with len obtain ls where z: "(email, ls) \<in> set (zip ?tr steals)"
      by (metis in_set_impl_in_set_zip1)
    have "(c_str (contact @ ''_spam_email.txt''), ''This is a spam email.'') \<in>
        set (payload_writes ro ?cl (email, ls))"
      by (rule spam_write_mem [OF that(2,4)])
    with z show ?thesis unfolding tr by auto
  qed
  have mem2: "(c_str (contact @ ''_replicated_email.txt''), email @ '' replicated_prompt'')
        \<in> set (trace s')"
    if "email \<in> set ?cl" "contact \<in> set ?cl" "IsAdversarialPrompt email"
      "can_open ro (contact @ ''_replicated_email.txt'')" for email contact
  proof -
    from that(1,3) have "email \<in> set ?tr" by simp
    with len obtain ls where z: "(email, ls) \<in> set (zip ?tr steals)"
      by (metis in_set_impl_in_set_zip1)
    have "(c_str (contact @ ''_replicated_email.txt''), email @ '' replicated_prompt'')
        \<in> set (payload_writes ro ?cl (email, ls))"
      by (rule replicated_write_mem [OF that(2,4)])
    with z show ?thesis unfolding tr by auto
  qed
  have names: "fst w \<noteq> [] \<and> fst w \<notin> ro" if "w \<in> set (trace s')" for w
  proof -
    from that consider (payload) p where "p \<in> set (zip ?tr steals)" "w \<in> set (payload_writes ro ?cl p)"
      | (ledger) "w \<in> set ?led"
      unfolding tr by auto
    then show ?thesis
    proof cases
      case payload
      from payload(1) have "snd p \<in> set steals" by (metis in_set_zipE prod.collapse)
      with emp have "''stolen_data.txt'' \<in> ro \<longrightarrow> snd p = []" by blast
      with payload(2) show ?thesis
        using payload_write_name [of w ro ?cl "fst p" "snd p"] by simp
    next
      case ledger
      then show ?thesis by (auto simp: edge_writes_def)
    qed
  qed
  have kept: "files s' name = fs name" if "name = [] \<or> name \<in> ro" for name
  proof -
    from that have 1: "name = [] \<or> name \<in> unwritable ?s1" by simp
    then have "name = [] \<or> name \<in> unwritable (Run_scan ?cl ?s1)"
      by (simp add: globalsD(4) [OF g])
    then have "files s' name = files (Run_scan ?cl ?s1) name"
      unfolding s' by (rule files_Run_propagate_unwritable)
    also have "\<dots> = files ?s1 name" by (rule files_Run_scan_unwritable [OF 1])
    finally show ?thesis by simp
  qed
  from len tr have "\<exists>steals. length steals = length ?tr \<and>
      trace s' = concat (map (payload_writes ro ?cl) (zip ?tr steals)) @ ?led"
    by blast
  with c t mem mem2 names kept show ?thesis by simp
qed

text \<open>
  Two contacts: the trigger \<^verbatim>\<open>x_adversarial_keyword\<close>, and \<^verbatim>\<open>z\<close> followed by a NUL byte and
  \<^verbatim>\<open>q\<close>. Both texts of the payload are written to the second contact's sinks, which are
  both opened as \<^verbatim>\<open>z\<close>, and the spam text to the first contact's own sink.
\<close>

theorem payload_reaches_every_contact_witness:
  "(''z'', ''This is a spam email.'') \<in>
     set (trace (snd (projr (main [''contacts.txt'' \<mapsto>
        ''x_adversarial_keyword'' @ [newline] @ ''z'' @ [CHR 0x00] @ ''q''] {})))) \<and>
   (''z'', ''x_adversarial_keyword replicated_prompt'') \<in>
     set (trace (snd (projr (main [''contacts.txt'' \<mapsto>
        ''x_adversarial_keyword'' @ [newline] @ ''z'' @ [CHR 0x00] @ ''q''] {})))) \<and>
   (''x_adversarial_keyword_spam_email.txt'', ''This is a spam email.'') \<in>
     set (trace (snd (projr (main [''contacts.txt'' \<mapsto>
        ''x_adversarial_keyword'' @ [newline] @ ''z'' @ [CHR 0x00] @ ''q''] {}))))"
proof -
  let ?content = "''x_adversarial_keyword'' @ [newline] @ ''z'' @ [CHR 0x00] @ ''q''"
  let ?fs = "[''contacts.txt'' \<mapsto> ?content]"
  let ?s' = "snd (projr (main ?fs {}))"
  let ?x = "''x_adversarial_keyword''"
  let ?z = "''z'' @ [CHR 0x00] @ ''q''"
  have m: "main ?fs {} = Inr (0, ?s')" by (rule main_projr)
  note th = payload_reaches_every_contact [OF m]
  from th have "contacts ?s' = getlines ?content" by simp
  then have c: "contacts ?s' = [?x, ?z]" by (simp only: getlines_two_contacts)
  from th have all: "\<forall>email\<in>set (contacts ?s'). \<forall>contact\<in>set (contacts ?s').
        IsAdversarialPrompt email \<longrightarrow>
            (can_open {} (contact @ ''_spam_email.txt'') \<longrightarrow>
               (c_str (contact @ ''_spam_email.txt''), ''This is a spam email.'') \<in> set (trace ?s')) \<and>
            (can_open {} (contact @ ''_replicated_email.txt'') \<longrightarrow>
               (c_str (contact @ ''_replicated_email.txt''), email @ '' replicated_prompt'')
                 \<in> set (trace ?s'))"
    by (elim conjE)
  have xs: "?x \<in> set (contacts ?s')" and zs: "?z \<in> set (contacts ?s')"
    unfolding c by simp_all
  from all xs zs trigger_x have
    "(can_open {} (?z @ ''_spam_email.txt'') \<longrightarrow>
       (c_str (?z @ ''_spam_email.txt''), ''This is a spam email.'') \<in> set (trace ?s')) \<and>
     (can_open {} (?z @ ''_replicated_email.txt'') \<longrightarrow>
       (c_str (?z @ ''_replicated_email.txt''), ?x @ '' replicated_prompt'') \<in> set (trace ?s'))"
    by blast
  then have 1: "(''z'', ''This is a spam email.'') \<in> set (trace ?s')"
    and 2: "(''z'', ''x_adversarial_keyword replicated_prompt'') \<in> set (trace ?s')"
    by (simp_all add: can_open_def c_str_def)
  from all xs trigger_x have
    "can_open {} (?x @ ''_spam_email.txt'') \<longrightarrow>
       (c_str (?x @ ''_spam_email.txt''), ''This is a spam email.'') \<in> set (trace ?s')"
    by blast
  then have 3: "(''x_adversarial_keyword_spam_email.txt'', ''This is a spam email.'') \<in> set (trace ?s')"
    by (simp add: can_open_def c_str_def)
  from 1 2 3 show ?thesis by (intro conjI)
qed

text \<open>
  Claim C6 as stated fails: when the spam sink of the only contact, which is a trigger,
  cannot be opened, the run leaves no such file.
\<close>

theorem unwritable_sink_counterexample:
  "IsAdversarialPrompt ''adversarial_keyword'' \<and>
   contacts (snd (projr (main [''contacts.txt'' \<mapsto> ''adversarial_keyword'']
      {''adversarial_keyword_spam_email.txt''}))) = [''adversarial_keyword''] \<and>
   files (snd (projr (main [''contacts.txt'' \<mapsto> ''adversarial_keyword'']
      {''adversarial_keyword_spam_email.txt''}))) ''adversarial_keyword_spam_email.txt'' = None"
proof -
  let ?ro = "{''adversarial_keyword_spam_email.txt''}"
  let ?s1 = "\<lparr>contacts = [''adversarial_keyword''], connected_systems = RBT.empty,
           infected_systems = RBT.empty, files = [''contacts.txt'' \<mapsto> ''adversarial_keyword''],
           unwritable = ?ro, trace = []\<rparr>"
  have m: "snd (projr (main [''contacts.txt'' \<mapsto> ''adversarial_keyword''] ?ro)) =
      ProcessAdversarialPrompt ''adversarial_keyword'' ?s1"
    by (simp add: main_keyword)
  have "contacts (ProcessAdversarialPrompt ''adversarial_keyword'' ?s1) = contacts ?s1"
    by (rule globalsD(1) [OF globals_ProcessAdversarialPrompt])
  moreover have "files (ProcessAdversarialPrompt ''adversarial_keyword'' ?s1)
      ''adversarial_keyword_spam_email.txt'' = files ?s1 ''adversarial_keyword_spam_email.txt''"
    by (rule files_ProcessAdversarialPrompt_unwritable) simp
  ultimately show ?thesis unfolding m by (simp add: trigger_keyword)
qed




subsection \<open>The second loop and \<^verbatim>\<open>infected_systems\<close>\<close>

text \<open>
  Claim C1, as amended. The second loop of \<^verbatim>\<open>Run\<close> is, for every edge of the map in
  turn, \<^verbatim>\<open>LogTransmission\<close> followed by \<^verbatim>\<open>LogInfection\<close>. No function inserts into
  \<^verbatim>\<open>infected_systems\<close>: the loop leaves it as it is, and at the end of every run it is
  empty, so that no system is a member of it.
\<close>

theorem infected_systems_never_marked:
  "Run_propagate s =
     fold (\<lambda>e s. LogInfection (fst e) (snd e) (LogTransmission (fst e) (snd e) s))
       (edges (connected_systems s)) s \<and>
   infected_systems (Run_propagate s) = infected_systems s \<and>
   (\<forall>status s'. main fs ro = Inr (status, s') \<longrightarrow>
      infected_systems s' = RBT.empty \<and> (\<forall>system. \<not> is_infected s' system))"
proof (intro conjI allI impI)
  have "(\<lambda>e. SendPrompt (fst e) (snd e)) =
        (\<lambda>e s. LogInfection (fst e) (snd e) (LogTransmission (fst e) (snd e) s))"
    by (simp add: SendPrompt_def fun_eq_iff)
  then show "Run_propagate s =
     fold (\<lambda>e s. LogInfection (fst e) (snd e) (LogTransmission (fst e) (snd e) s))
       (edges (connected_systems s)) s"
    using Run_propagate_fold [of s] by simp
next
  show "infected_systems (Run_propagate s) = infected_systems s"
    by (rule globalsD(3) [OF globals_Run_propagate])
next
  fix status s' assume m: "main fs ro = Inr (status, s')"
  let ?cl = "case fs ''contacts.txt'' of None \<Rightarrow> [] | Some c \<Rightarrow> getlines c"
  obtain cs where "main fs ro =
           Inr (0, Run_propagate (Run_scan ?cl
                    \<lparr>contacts = ?cl, connected_systems = cs, infected_systems = RBT.empty,
                     files = fs, unwritable = ro, trace = []\<rparr>))"
    by (rule main_cases)
  with m have "s' = Run_propagate (Run_scan ?cl
                    \<lparr>contacts = ?cl, connected_systems = cs, infected_systems = RBT.empty,
                     files = fs, unwritable = ro, trace = []\<rparr>)"
    by simp
  then show e: "infected_systems s' = RBT.empty"
    using globalsD(3) [OF globals_main_state, of ?cl
        "\<lparr>contacts = ?cl, connected_systems = cs, infected_systems = RBT.empty,
                     files = fs, unwritable = ro, trace = []\<rparr>"]
    by simp
  fix system
  from e show "\<not> is_infected s' system" by (simp add: is_infected_def)
qed

text \<open>The run on the topology \<^verbatim>\<open>A B\<close> ends with an empty \<^verbatim>\<open>infected_systems\<close>.\<close>

theorem infected_systems_never_marked_witness:
  "infected_systems (snd (projr (main [''connected_systems.txt'' \<mapsto> ''A B''] {}))) = RBT.empty \<and>
   (\<forall>system. \<not> is_infected (snd (projr (main [''connected_systems.txt'' \<mapsto> ''A B''] {}))) system)"
  using infected_systems_never_marked [of "initial Map.empty {}" "[''connected_systems.txt'' \<mapsto> ''A B'']" "{}"]
    run_A_B(1) [of "{}"]
  by blast

text \<open>
  Claim C1 as stated fails: after the run on the topology \<^verbatim>\<open>A B\<close>, \<^verbatim>\<open>B\<close> is a neighbor
  of \<^verbatim>\<open>A\<close> in the map and is not a member of \<^verbatim>\<open>infected_systems\<close>.
\<close>

theorem neighbor_not_infected_counterexample:
  "''B'' \<in> neighbors_of (connected_systems
       (snd (projr (main [''connected_systems.txt'' \<mapsto> ''A B''] {})))) ''A'' \<and>
   \<not> is_infected (snd (projr (main [''connected_systems.txt'' \<mapsto> ''A B''] {}))) ''B''"
  by (simp add: run_A_B(2,3) neighbors_A_B is_infected_def)

subsection \<open>The ledger lines of a run\<close>

text \<open>
  Claim C2, as amended. In a run in which \<^verbatim>\<open>transmission_log.txt\<close> and
  \<^verbatim>\<open>infection_log.txt\<close> can both be opened, for every edge (host, system) of the map
  exactly one write of the line \<^verbatim>\<open><host> -> <system>\<close> reaches the transmission ledger,
  exactly one write of the line \<^verbatim>\<open><host> infected <system>\<close> reaches the infection
  ledger, and the first comes immediately before the second.
\<close>

theorem ledger_lines_once_in_order:
  assumes "main fs ro = Inr (status, s')"
    and "''transmission_log.txt'' \<notin> ro" and "''infection_log.txt'' \<notin> ro"
    and "system \<in> neighbors_of (connected_systems s') host"
  shows "count_list (trace s') (''transmission_log.txt'', host @ '' -> '' @ system @ [newline]) = 1 \<and>
         count_list (trace s') (''infection_log.txt'', host @ '' infected '' @ system @ [newline]) = 1 \<and>
         (\<exists>before after. trace s' =
            before @ [(''transmission_log.txt'', host @ '' -> '' @ system @ [newline]),
                      (''infection_log.txt'', host @ '' infected '' @ system @ [newline])] @ after)"
proof -
  obtain cs ws lines where l: "IdentifyConnectedSystems_loop lines RBT.empty = Inr cs"
    and cs: "connected_systems s' = cs"
    and tr: "trace s' = ws @ filter (\<lambda>w. fst w \<notin> ro) (concat (map edge_writes (edges cs)))"
    and ws: "\<forall>w\<in>set ws. fst w = ''stolen_data.txt'' \<or> (snd w \<noteq> [] \<and> last (snd w) \<noteq> newline)"
    by (rule trace_main [OF assms(1)])
  from tr assms(2,3) have tr': "trace s' = ws @ concat (map edge_writes (edges cs))"
    by (simp add: filter_edge_writes)
  from assms(4) cs have mem: "(host, system) \<in> set (edges cs)" by (simp add: set_edges)
  have hosts: "\<forall>e\<in>set (edges cs). CHR '' '' \<notin> set (fst e)" by (rule edges_hosts [OF l])
  with mem have h: "CHR '' '' \<notin> set (fst (host, system))" by blast
  have one: "count_list (edges cs) (host, system) = 1"
    by (rule count_list_distinct [OF distinct_edges mem])
  have tl: "transmission_line (host, system) = host @ '' -> '' @ system @ [newline]"
    by (simp add: transmission_line_def)
  have il: "infection_line (host, system) = host @ '' infected '' @ system @ [newline]"
    by (simp add: infection_line_def)
  have nt: "(''transmission_log.txt'', transmission_line (host, system)) \<notin> set ws"
  proof
    assume "(''transmission_log.txt'', transmission_line (host, system)) \<in> set ws"
    with ws have "fst (''transmission_log.txt'', transmission_line (host, system)) = ''stolen_data.txt'' \<or>
        (snd (''transmission_log.txt'', transmission_line (host, system)) \<noteq> [] \<and>
         last (snd (''transmission_log.txt'', transmission_line (host, system))) \<noteq> newline)"
      by (rule bspec)
    then show False by (simp add: transmission_line_def)
  qed
  have ni: "(''infection_log.txt'', infection_line (host, system)) \<notin> set ws"
  proof
    assume "(''infection_log.txt'', infection_line (host, system)) \<in> set ws"
    with ws have "fst (''infection_log.txt'', infection_line (host, system)) = ''stolen_data.txt'' \<or>
        (snd (''infection_log.txt'', infection_line (host, system)) \<noteq> [] \<and>
         last (snd (''infection_log.txt'', infection_line (host, system))) \<noteq> newline)"
      by (rule bspec)
    then show False by (simp add: infection_line_def)
  qed
  have c1: "count_list (trace s') (''transmission_log.txt'', transmission_line (host, system)) = 1"
    unfolding tr' count_list_append count_transmission [OF hosts h] one
    by (simp add: count_notin [OF nt])
  have c2: "count_list (trace s') (''infection_log.txt'', infection_line (host, system)) = 1"
    unfolding tr' count_list_append count_infection [OF hosts h] one
    by (simp add: count_notin [OF ni])
  from mem obtain es1 es2 where "edges cs = es1 @ (host, system) # es2"
    by (auto dest: split_list)
  then have "trace s' = (ws @ concat (map edge_writes es1)) @
      [(''transmission_log.txt'', transmission_line (host, system)),
       (''infection_log.txt'', infection_line (host, system))] @ concat (map edge_writes es2)"
    by (simp add: tr' edge_writes_def)
  then have c3: "\<exists>before after. trace s' = before @
      [(''transmission_log.txt'', transmission_line (host, system)),
       (''infection_log.txt'', infection_line (host, system))] @ after"
    by (intro exI)
  show ?thesis unfolding tl [symmetric] il [symmetric]
    by (rule conjI [OF c1 conjI [OF c2 c3]])
qed

text \<open>The run on the topology \<^verbatim>\<open>A B\<close> with every sink writable.\<close>

theorem ledger_lines_once_in_order_witness:
  "count_list (trace (snd (projr (main [''connected_systems.txt'' \<mapsto> ''A B''] {}))))
     (''transmission_log.txt'', ''A -> B'' @ [newline]) = 1 \<and>
   count_list (trace (snd (projr (main [''connected_systems.txt'' \<mapsto> ''A B''] {}))))
     (''infection_log.txt'', ''A infected B'' @ [newline]) = 1 \<and>
   (\<exists>before after. trace (snd (projr (main [''connected_systems.txt'' \<mapsto> ''A B''] {}))) =
      before @ [(''transmission_log.txt'', ''A -> B'' @ [newline]),
                (''infection_log.txt'', ''A infected B'' @ [newline])] @ after)"
proof -
  let ?s' = "snd (projr (main [''connected_systems.txt'' \<mapsto> ''A B''] {}))"
  have 1: "main [''connected_systems.txt'' \<mapsto> ''A B''] {} = Inr (0, ?s')" by (rule run_A_B(1))
  have 2: "''transmission_log.txt'' \<notin> ({} :: string set)" by simp
  have 3: "''infection_log.txt'' \<notin> ({} :: string set)" by simp
  have 4: "''B'' \<in> neighbors_of (connected_systems ?s') ''A''"
    by (simp add: run_A_B(2) neighbors_A_B)
  from ledger_lines_once_in_order [OF 1 2 3 4] show ?thesis by simp
qed

text \<open>
  Claim C2 as stated fails: when \<^verbatim>\<open>transmission_log.txt\<close> cannot be opened, the run on
  the topology \<^verbatim>\<open>A B\<close> writes the infection line of the edge and no transmission line
  (\<^verbatim>\<open>LogTransmission\<close> writes to its stream without testing it).
\<close>

theorem ledger_unwritable_counterexample:
  "''B'' \<in> neighbors_of (connected_systems
       (snd (projr (main [''connected_systems.txt'' \<mapsto> ''A B''] {''transmission_log.txt''})))) ''A'' \<and>
   trace (snd (projr (main [''connected_systems.txt'' \<mapsto> ''A B''] {''transmission_log.txt''}))) =
     [(''infection_log.txt'', ''A infected B'' @ [newline])] \<and>
   count_list (trace (snd (projr (main [''connected_systems.txt'' \<mapsto> ''A B''] {''transmission_log.txt''}))))
     (''transmission_log.txt'', ''A -> B'' @ [newline]) = 0"
  by (simp add: run_A_B(2,4) neighbors_A_B edge_writes_def infection_line_def)

subsection \<open>What the two loops of \<^verbatim>\<open>Run\<close> leave unchanged\<close>

text \<open>
  Claim C9. Only \<^verbatim>\<open>Initialize\<close> changes \<^verbatim>\<open>contacts\<close> and \<^verbatim>\<open>connected_systems\<close>: the
  loop over the contacts and the loop over the map leave both as they are, so that their
  values when \<^verbatim>\<open>Run\<close> returns are those that \<^verbatim>\<open>Initialize\<close> left.
\<close>

theorem contacts_and_topology_fixed_after_init:
  "contacts (Run_scan emails s) = contacts s \<and>
   connected_systems (Run_scan emails s) = connected_systems s \<and>
   contacts (Run_propagate s) = contacts s \<and>
   connected_systems (Run_propagate s) = connected_systems s \<and>
   (\<forall>s1. Initialize s = Inr s1 \<longrightarrow>
      (\<exists>s'. Run s = Inr s' \<and> contacts s' = contacts s1 \<and>
            connected_systems s' = connected_systems s1))"
proof (intro conjI allI impI)
  show "contacts (Run_scan emails s) = contacts s"
    by (rule globalsD(1) [OF globals_Run_scan])
  show "connected_systems (Run_scan emails s) = connected_systems s"
    by (rule globalsD(2) [OF globals_Run_scan])
  show "contacts (Run_propagate s) = contacts s"
    by (rule globalsD(1) [OF globals_Run_propagate])
  show "connected_systems (Run_propagate s) = connected_systems s"
    by (rule globalsD(2) [OF globals_Run_propagate])
next
  fix s1 assume i: "Initialize s = Inr s1"
  then have "Run s = Inr (Run_propagate (Run_scan (contacts s1) s1))" by (simp add: Run_def)
  moreover have "contacts (Run_propagate (Run_scan (contacts s1) s1)) = contacts s1"
    by (rule globalsD(1) [OF globals_main_state])
  moreover have "connected_systems (Run_propagate (Run_scan (contacts s1) s1)) =
      connected_systems s1"
    by (rule globalsD(2) [OF globals_main_state])
  ultimately show "\<exists>s'. Run s = Inr s' \<and> contacts s' = contacts s1 \<and>
            connected_systems s' = connected_systems s1"
    by simp
qed

text \<open>A run with one contact and the topology \<^verbatim>\<open>A B\<close>.\<close>

theorem contacts_and_topology_fixed_after_init_witness:
  "\<exists>s'. Run (initial [''contacts.txt'' \<mapsto> ''x'', ''connected_systems.txt'' \<mapsto> ''A B''] {}) = Inr s' \<and>
      contacts s' = [''x''] \<and> connected_systems s' = insert_connected ''A'' ''B'' RBT.empty"
  using contacts_and_topology_fixed_after_init
      [of "[]" "initial [''contacts.txt'' \<mapsto> ''x'', ''connected_systems.txt'' \<mapsto> ''A B''] {}"]
    Initialize_sample
  by simp

subsection \<open>Completion of the run\<close>

text \<open>
  Claim C5. Whatever files exist and whatever sinks can be opened, \<^verbatim>\<open>Run\<close> returns without
  an exception and \<^verbatim>\<open>main\<close> returns 0. When \<^verbatim>\<open>contacts.txt\<close> and
  \<^verbatim>\<open>connected_systems.txt\<close> are missing or empty, the run ends with no contact, an empty
  map, nothing written and the file system as it found it.
\<close>

theorem run_always_exits_0:
  "(\<exists>s'. main fs ro = Inr (0, s')) \<and>
   ((fs ''contacts.txt'' = None \<or> fs ''contacts.txt'' = Some []) \<and>
    (fs ''connected_systems.txt'' = None \<or> fs ''connected_systems.txt'' = Some []) \<longrightarrow>
    (\<exists>s'. main fs ro = Inr (0, s') \<and> contacts s' = [] \<and> connected_systems s' = RBT.empty \<and>
          infected_systems s' = RBT.empty \<and> trace s' = [] \<and> files s' = fs))"
proof (intro conjI impI)
  show "\<exists>s'. main fs ro = Inr (0, s')" by (rule main_exits_0)
next
  assume "(fs ''contacts.txt'' = None \<or> fs ''contacts.txt'' = Some []) \<and>
    (fs ''connected_systems.txt'' = None \<or> fs ''connected_systems.txt'' = Some [])"
  then have "main fs ro = Inr (0, initial fs ro)" by (intro main_no_sources) simp_all
  then show "\<exists>s'. main fs ro = Inr (0, s') \<and> contacts s' = [] \<and> connected_systems s' = RBT.empty \<and>
          infected_systems s' = RBT.empty \<and> trace s' = [] \<and> files s' = fs"
    by (simp add: initial_def)
qed

theorem run_always_exits_0_witness:
  "\<exists>s'. main Map.empty UNIV = Inr (0, s') \<and> contacts s' = [] \<and>
      connected_systems s' = RBT.empty \<and> infected_systems s' = RBT.empty \<and>
      trace s' = [] \<and> files s' = Map.empty"
  using run_always_exits_0 [of Map.empty UNIV] by simp

end
